theory Spec2Isabelle
  imports Main "HOL-Library.Multiset" "HOL-Library.Signed_Division"
    "HOL-Library.Product_Lexorder" "HOL-Library.Option_ord"
begin

section \<open>Sweep and prune over axis-aligned boxes: a model of \<^verbatim>\<open>par_sprune.h\<close>\<close>

text \<open>
  The header \<^verbatim>\<open>par_sprune.h\<close> detects the overlapping pairs among \<open>n\<close> axis-aligned boxes
  given as a flat array of 4-tuples \<open>(minx, miny, maxx, maxy)\<close>. It sorts, for each axis, the
  \<open>2n\<close> interval end points, sweeps them keeping the list of open boxes, and intersects the
  candidate pairs of the two axes.

  Conventions of the model.
  \<^item> \<^verbatim>\<open>PARINT\<close> (\<^verbatim>\<open>int32_t\<close>) and \<^verbatim>\<open>int\<close> are \<open>int\<close>, with 4 bytes each; where the source computes
    a count, a capacity or an event index in 32 bits, the model checks that the result fits
    and gives the error \<open>IntOverflow\<close> otherwise. \<^verbatim>\<open>bool\<close> has 1 byte.
  \<^item> \<^verbatim>\<open>PARFLT\<close> (\<^verbatim>\<open>float\<close>, a macro the user may redefine) is \<open>'a flt\<close>: NaN, or a number of a
    type of class \<open>linorder\<close>. The source only compares coordinates with \<^verbatim>\<open><\<close> and \<^verbatim>\<open>>\<close>.
  \<^item> A growable array (the \<^verbatim>\<open>pa_\<close> macros) is its capacity header together with the list of
    the cells in use. \<^verbatim>\<open>realloc\<close> is taken to succeed; the sizes it is asked for are modelled.
  \<^item> An array sorted with a stride of \<open>w\<close> bytes is a list of elements of an arbitrary type:
    one list element is one \<open>w\<close>-byte cell, and a pointer into the array is the index of its
    cell. The flat arrays of two-tuples are lists of pairs.
  \<^item> An assertion failure, an access outside a buffer and an overflow are values of type
    \<open>error\<close>.
\<close>

subsection \<open>The comparator sort (\<^verbatim>\<open>par_qsort\<close>, lines 143--218)\<close>

type_synonym 'a compar = "'a \<Rightarrow> 'a \<Rightarrow> int"

text \<open>
  \<^verbatim>\<open>par_qsort_cmpswap(a, b, w, compar, arg)\<close> exchanges the two cells when \<^verbatim>\<open>compar(a, b) > 0\<close> and
  reports whether it did. The context argument \<^verbatim>\<open>arg\<close> is part of the closure \<open>compar\<close>.
\<close>

definition par_qsort_cmpswap :: "'a compar \<Rightarrow> nat \<Rightarrow> nat \<Rightarrow> 'a list \<Rightarrow> bool \<times> 'a list" where
  "par_qsort_cmpswap compar a b xs =
     (if compar (xs ! a) (xs ! b) > 0 then (True, xs[a := xs ! b, b := xs ! a])
      else (False, xs))"

text \<open>
  The branch for fewer than seven elements is an insertion sort. \<open>insert_down\<close> is the inner loop
  \<^verbatim>\<open>for (pj = pi; pj > b && par_qsort_cmpswap(pj-w, pj, ...); pj -= w)\<close>, \<open>insertion_loop\<close> the
  outer loop \<^verbatim>\<open>for (pi = b+w; pi < end; pi += w)\<close>.
\<close>

fun insert_down :: "'a compar \<Rightarrow> nat \<Rightarrow> 'a list \<Rightarrow> 'a list" where
  "insert_down compar 0 xs = xs"
| "insert_down compar (Suc pj) xs =
     (case par_qsort_cmpswap compar pj (Suc pj) xs of
        (True, ys) \<Rightarrow> insert_down compar pj ys
      | (False, ys) \<Rightarrow> ys)"

lemma length_cmpswap: "length (snd (par_qsort_cmpswap compar a b xs)) = length xs"
  by (simp add: par_qsort_cmpswap_def)

lemma length_insert_down: "length (insert_down compar pj xs) = length xs"
proof (induction pj arbitrary: xs)
  case 0
  show ?case by simp
next
  case (Suc pj)
  show ?case
    using Suc.IH length_cmpswap [of compar pj "Suc pj" xs]
    by (auto split: prod.splits bool.splits)
qed

function insertion_loop :: "'a compar \<Rightarrow> nat \<Rightarrow> 'a list \<Rightarrow> 'a list" where
  "insertion_loop compar pi xs =
     (if pi < length xs then insertion_loop compar (pi + 1) (insert_down compar pi xs)
      else xs)"
  by pat_completeness auto
termination
  by (relation "measure (\<lambda>(compar, pi, xs). length xs - pi)")
     (auto simp: length_insert_down)

text \<open>
  The partition of the other branch keeps the pivot at \<^verbatim>\<open>pr\<close> while \<^verbatim>\<open>pl\<close> moves up (first inner
  loop, \<open>scan_up\<close>) and at \<^verbatim>\<open>pl\<close> while \<^verbatim>\<open>pr\<close> moves down (second inner loop, \<open>scan_down\<close>);
  each inner loop stops at its first exchange. \<open>partition_loop\<close> is the enclosing
  \<^verbatim>\<open>while (pl < pr)\<close> and returns the final \<^verbatim>\<open>pl\<close> with the array.
\<close>

function scan_up :: "'a compar \<Rightarrow> nat \<Rightarrow> nat \<Rightarrow> 'a list \<Rightarrow> nat \<times> nat \<times> 'a list" where
  "scan_up compar pl pr xs =
     (if pl < pr then
        (case par_qsort_cmpswap compar pl pr xs of
           (True, ys) \<Rightarrow> (pl, pr - 1, ys)
         | (False, ys) \<Rightarrow> scan_up compar (pl + 1) pr ys)
      else (pl, pr, xs))"
  by pat_completeness auto
termination
  by (relation "measure (\<lambda>(compar, pl, pr, xs). pr - pl)") auto

function scan_down :: "'a compar \<Rightarrow> nat \<Rightarrow> nat \<Rightarrow> 'a list \<Rightarrow> nat \<times> nat \<times> 'a list" where
  "scan_down compar pl pr xs =
     (if pl < pr then
        (case par_qsort_cmpswap compar pl pr xs of
           (True, ys) \<Rightarrow> (pl + 1, pr, ys)
         | (False, ys) \<Rightarrow> scan_down compar pl (pr - 1) ys)
      else (pl, pr, xs))"
  by pat_completeness auto
termination
  by (relation "measure (\<lambda>(compar, pl, pr, xs). pr - pl)") auto

declare scan_up.simps [simp del] scan_down.simps [simp del] insertion_loop.simps [simp del]

lemma scan_up_gap:
  "scan_up compar pl pr xs = (pl', pr', ys) \<Longrightarrow>
     length ys = length xs \<and> (pl \<le> pr \<longrightarrow> pl \<le> pl' \<and> pl' \<le> pr' \<and> pr' \<le> pr) \<and> (pl < pr \<longrightarrow> pr' - pl' < pr - pl)"
proof (induction compar pl pr xs rule: scan_up.induct)
  case (1 compar pl pr xs)
  show ?case
  proof (cases "pl < pr")
    case False
    with "1.prems" show ?thesis by (simp add: scan_up.simps [of compar pl pr xs])
  next
    case True
    obtain sw zs where c: "par_qsort_cmpswap compar pl pr xs = (sw, zs)"
      by (cases "par_qsort_cmpswap compar pl pr xs")
    have lz: "length zs = length xs"
      using length_cmpswap [of compar pl pr xs] c by simp
    show ?thesis
    proof (cases sw)
      case True
      with \<open>pl < pr\<close> c "1.prems" lz show ?thesis
        by (auto simp: scan_up.simps [of compar pl pr xs])
    next
      case False
      with \<open>pl < pr\<close> c "1.prems"
      have r: "scan_up compar (pl + 1) pr zs = (pl', pr', ys)"
        by (simp add: scan_up.simps [of compar pl pr xs])
      from "1.IH" [OF \<open>pl < pr\<close> c [symmetric] _ r] False lz \<open>pl < pr\<close>
      show ?thesis by auto
    qed
  qed
qed

lemma scan_down_gap:
  "scan_down compar pl pr xs = (pl', pr', ys) \<Longrightarrow>
     length ys = length xs \<and> (pl \<le> pr \<longrightarrow> pl \<le> pl' \<and> pl' \<le> pr' \<and> pr' \<le> pr)"
proof (induction compar pl pr xs rule: scan_down.induct)
  case (1 compar pl pr xs)
  show ?case
  proof (cases "pl < pr")
    case False
    with "1.prems" show ?thesis by (simp add: scan_down.simps [of compar pl pr xs])
  next
    case True
    obtain sw zs where c: "par_qsort_cmpswap compar pl pr xs = (sw, zs)"
      by (cases "par_qsort_cmpswap compar pl pr xs")
    have lz: "length zs = length xs"
      using length_cmpswap [of compar pl pr xs] c by simp
    show ?thesis
    proof (cases sw)
      case True
      with \<open>pl < pr\<close> c "1.prems" lz show ?thesis
        by (auto simp: scan_down.simps [of compar pl pr xs])
    next
      case False
      with \<open>pl < pr\<close> c "1.prems"
      have r: "scan_down compar pl (pr - 1) zs = (pl', pr', ys)"
        by (simp add: scan_down.simps [of compar pl pr xs])
      from "1.IH" [OF \<open>pl < pr\<close> c [symmetric] _ r] False lz \<open>pl < pr\<close>
      show ?thesis by auto
    qed
  qed
qed

function partition_loop :: "'a compar \<Rightarrow> nat \<Rightarrow> nat \<Rightarrow> 'a list \<Rightarrow> nat \<times> 'a list" where
  "partition_loop compar pl pr xs =
     (if pl < pr then
        (case scan_up compar pl pr xs of
           (pl1, pr1, ys) \<Rightarrow>
             (case scan_down compar pl1 pr1 ys of
                (pl2, pr2, zs) \<Rightarrow> partition_loop compar pl2 pr2 zs))
      else (pl, xs))"
  by pat_completeness auto
termination
  apply (relation "measure (\<lambda>(compar, pl, pr, xs). pr - pl)")
   apply simp
  apply (auto split: prod.splits dest!: scan_up_gap [OF sym] scan_down_gap)
  done

declare partition_loop.simps [simp del]

lemma partition_loop_bounds:
  "partition_loop compar pl pr xs = (p, ys) \<Longrightarrow>
     length ys = length xs \<and> (pl \<le> pr \<longrightarrow> pl \<le> p \<and> p \<le> pr)"
proof (induction compar pl pr xs rule: partition_loop.induct)
  case (1 compar pl pr xs)
  show ?case
  proof (cases "pl < pr")
    case False
    with "1.prems" show ?thesis by (simp add: partition_loop.simps [of compar pl pr xs])
  next
    case True
    obtain pl1 pr1 us where u: "scan_up compar pl pr xs = (pl1, pr1, us)"
      by (cases "scan_up compar pl pr xs")
    obtain pl2 pr2 zs where d: "scan_down compar pl1 pr1 us = (pl2, pr2, zs)"
      by (cases "scan_down compar pl1 pr1 us")
    from True u d "1.prems" have r: "partition_loop compar pl2 pr2 zs = (p, ys)"
      by (simp add: partition_loop.simps [of compar pl pr xs])
    have "length ys = length zs \<and> (pl2 \<le> pr2 \<longrightarrow> pl2 \<le> p \<and> p \<le> pr2)"
      using "1.IH" [OF True u [symmetric] refl d [symmetric] refl r] .
    with scan_up_gap [OF u] scan_down_gap [OF d] True show ?thesis by auto
  qed
qed

text \<open>
  The pivot is the median of the first, the middle and the last cell: the three pointers
  \<^verbatim>\<open>l[0], l[1], l[2]\<close> are ordered with at most three comparisons and \<^verbatim>\<open>l[1]\<close> is the result.
\<close>

definition median3 :: "'a compar \<Rightarrow> 'a list \<Rightarrow> nat" where
  "median3 compar xs =
     (let nel = length xs; last = nel - 1;
          l0 = 0; l1 = nel div 2; l2 = last;
          (l0, l1) = (if compar (xs ! l0) (xs ! l1) > 0 then (l1, l0) else (l0, l1))
      in if compar (xs ! l1) (xs ! l2) > 0 then
           (let (l1, l2) = (l2, l1) in
            if compar (xs ! l0) (xs ! l1) > 0 then l0 else l1)
         else l1)"

lemma median3_less: "xs \<noteq> [] \<Longrightarrow> median3 compar xs < length xs"
  by (auto simp: median3_def Let_def)

text \<open>
  \<^verbatim>\<open>par_qsort\<close> itself. The list is the sub-array \<^verbatim>\<open>base[0 .. nel)\<close>; the two recursive calls
  of the source sort the cells before and after the final pivot position in place, which is the
  concatenation below.
\<close>

function par_qsort :: "'a compar \<Rightarrow> 'a list \<Rightarrow> 'a list" where
  "par_qsort compar xs =
     (if length xs < 7 then insertion_loop compar 1 xs
      else
        (let last = length xs - 1;
             m = median3 compar xs;
             ys = xs[m := xs ! last, last := xs ! m]
         in case partition_loop compar 0 last ys of
              (pl, zs) \<Rightarrow>
                par_qsort compar (take pl zs) @ [zs ! pl] @ par_qsort compar (drop (pl + 1) zs)))"
  by pat_completeness auto
termination
  apply (relation "measure (\<lambda>(compar, xs). length xs)")
    apply simp
   apply (auto dest!: partition_loop_bounds [OF sym])
  done

declare par_qsort.simps [simp del]

subsection \<open>Coordinates, errors and the growable arrays (lines 92--123)\<close>

text \<open>
  A coordinate is \<open>NaN\<close> or a number. The source compares coordinates with \<^verbatim>\<open>>\<close> and \<^verbatim>\<open><\<close> only;
  both are false as soon as one side is NaN.
\<close>

type_synonym 'a flt = "'a option"

abbreviation (input) NaN :: "'a flt" where
  "NaN \<equiv> None"

abbreviation (input) Num :: "'a \<Rightarrow> 'a flt" where
  "Num x \<equiv> Some x"

definition flt_gt :: "'a::linorder flt \<Rightarrow> 'a flt \<Rightarrow> bool" where
  "flt_gt x y = (case x of None \<Rightarrow> False | Some u \<Rightarrow> (case y of None \<Rightarrow> False | Some v \<Rightarrow> u > v))"

definition flt_lt :: "'a::linorder flt \<Rightarrow> 'a flt \<Rightarrow> bool" where
  "flt_lt x y = (case x of None \<Rightarrow> False | Some u \<Rightarrow> (case y of None \<Rightarrow> False | Some v \<Rightarrow> u < v))"

definition flt_le :: "'a::linorder flt \<Rightarrow> 'a flt \<Rightarrow> bool" where
  "flt_le x y = (case x of None \<Rightarrow> False | Some u \<Rightarrow> (case y of None \<Rightarrow> False | Some v \<Rightarrow> u \<le> v))"

text \<open>
  \<open>AssertionFailed\<close> is the \<^verbatim>\<open>assert(i >= 0)\<close> of \<^verbatim>\<open>par_sprune__remove\<close>; \<open>OutOfBounds\<close> is an
  access outside a buffer or outside the caller's box array; \<open>IntOverflow\<close> is \<^verbatim>\<open>int\<close> arithmetic
  that leaves 32 bits. The last two are undefined behaviour in C. \<open>InvalidCount\<close> belongs to
  the error taxonomy of the specification; no path of the source produces it.
\<close>

datatype error = AssertionFailed | OutOfBounds | IntOverflow | InvalidCount

definition int_ok :: "int \<Rightarrow> bool" where
  "int_ok i \<longleftrightarrow> - (2 ^ 31) \<le> i \<and> i < 2 ^ 31"

text \<open>
  A growable array is a block of \<^verbatim>\<open>int\<close>s: the capacity \<^verbatim>\<open>m\<close>, the count \<^verbatim>\<open>n\<close>, then the cells.
  In the model it is a pair of the capacity header (\<open>None\<close> for the null pointer) and the list
  of the \<^verbatim>\<open>n\<close> cells in use.

  \<^verbatim>\<open>pa___growf(arr, increment, itemsize)\<close> takes the array as its header and its count and
  returns the new capacity. It requests \<^verbatim>\<open>itemsize * m / sizeof(int) + 2\<close> \<^verbatim>\<open>int\<close>s, the product
  computed in \<^verbatim>\<open>int\<close>.
\<close>

type_synonym 'a pa = "nat option \<times> 'a list"

definition pa___growf :: "nat option \<Rightarrow> int \<Rightarrow> int \<Rightarrow> int \<Rightarrow> error + nat" where
  "pa___growf arr_m arr_n increment itemsize =
     (let dbl_cur = (case arr_m of None \<Rightarrow> 0 | Some m \<Rightarrow> 2 * int m);
          min_needed = arr_n + increment;
          m = (if dbl_cur > min_needed then dbl_cur else min_needed)
      in if int_ok dbl_cur \<and> int_ok min_needed \<and> int_ok (itemsize * m)
         then Inr (nat m) else Inl IntOverflow)"

text \<open>
  \<^verbatim>\<open>pa___maybegrow(a, n)\<close>: grow when the pointer is null or \<^verbatim>\<open>pa___n(a) + n >= pa___m(a)\<close>.
\<close>

definition pa___maybegrow :: "nat option \<Rightarrow> int \<Rightarrow> int \<Rightarrow> int \<Rightarrow> error + nat option" where
  "pa___maybegrow arr_m arr_n n itemsize =
     (case arr_m of
        None \<Rightarrow> map_sum id Some (pa___growf None 0 n itemsize)
      | Some m \<Rightarrow>
          if arr_n + n \<ge> int m then map_sum id Some (pa___growf (Some m) arr_n n itemsize)
          else Inr (Some m))"

text \<open>
  The cells that a block of capacity \<open>m\<close> really holds: \<^verbatim>\<open>realloc\<close> was asked for
  \<^verbatim>\<open>itemsize * m / sizeof(int)\<close> \<^verbatim>\<open>int\<close>s after the header, that is
  \<open>4 * (itemsize * m div 4)\<close> bytes. For \<^verbatim>\<open>PARINT\<close> cells that is \<open>m\<close> cells; for \<^verbatim>\<open>bool\<close> cells
  the division rounds the byte count down to a multiple of 4.
\<close>

definition pa_room :: "nat option \<Rightarrow> int \<Rightarrow> int" where
  "pa_room arr_m itemsize =
     (case arr_m of None \<Rightarrow> 0 | Some m \<Rightarrow> 4 * (itemsize * int m div 4) div itemsize)"

text \<open>
  \<^verbatim>\<open>pa_push(a, v)\<close> on an array of \<^verbatim>\<open>PARINT\<close>, and the two pushes that append one pair to a flat
  array of two-tuples, which the model keeps as a list of pairs (its count is twice the length).
  \<^verbatim>\<open>pa_clear(a); pa_add(a, n)\<close> gives the new header of an array whose \<open>n\<close> cells are then
  written by the caller.
\<close>

definition pa_push :: "int pa \<Rightarrow> int \<Rightarrow> error + int pa" where
  "pa_push a v =
     (case pa___maybegrow (fst a) (int (length (snd a))) 1 4 of
        Inl e \<Rightarrow> Inl e
      | Inr m \<Rightarrow> Inr (m, snd a @ [v]))"

definition pa_push2 :: "(int \<times> int) pa \<Rightarrow> int \<Rightarrow> int \<Rightarrow> error + (int \<times> int) pa" where
  "pa_push2 a x y =
     (case pa___maybegrow (fst a) (2 * int (length (snd a))) 1 4 of
        Inl e \<Rightarrow> Inl e
      | Inr m1 \<Rightarrow>
          (case pa___maybegrow m1 (2 * int (length (snd a)) + 1) 1 4 of
             Inl e \<Rightarrow> Inl e
           | Inr m2 \<Rightarrow> Inr (m2, snd a @ [(x, y)])))"

definition pa_clear_add :: "nat option \<Rightarrow> int \<Rightarrow> int \<Rightarrow> error + nat option" where
  "pa_clear_add arr_m n itemsize = pa___maybegrow arr_m 0 n itemsize"

subsection \<open>The context and the sweep (\<^verbatim>\<open>par_sprune_overlap\<close>, lines 127--141 and 231--360)\<close>

text \<open>
  The private struct \<^verbatim>\<open>par_sprune__context\<close>. The fields \<^verbatim>\<open>aabbs\<close> and \<^verbatim>\<open>naabbs\<close> are called
  \<open>ctx_aabbs\<close> and \<open>ctx_naabbs\<close> to keep them apart from the parameters of the same names;
  the two-element arrays \<^verbatim>\<open>sorted_indices[2]\<close> and \<^verbatim>\<open>overlap_flags[2]\<close> are pairs. Every growable
  array of the struct is a field with its cells and a field, named with the suffix \<open>_m\<close>, with
  its capacity header. The source keeps a pointer to the caller's boxes, the model their
  contents at the time of the call. The array \<^verbatim>\<open>culled\<close> is not touched by the code of the source.
\<close>

record 'a par_sprune_context =
  collision_pairs :: "(int \<times> int) list"
  ncollision_pairs :: int
  culled :: "int list"
  nculled :: int
  ctx_aabbs :: "'a list"
  ctx_naabbs :: int
  sorted_indices :: "int list \<times> int list"
  overlap_flags :: "bool list \<times> bool list"
  collision_pairs_m :: "nat option"
  sorted_indices_m :: "nat option \<times> nat option"
  overlap_flags_m :: "nat option \<times> nat option"

definition PAR_MIN :: "int \<Rightarrow> int \<Rightarrow> int" where
  "PAR_MIN a b = (if a > b then b else a)"

definition PAR_MAX :: "int \<Rightarrow> int \<Rightarrow> int" where
  "PAR_MAX a b = (if a > b then a else b)"

text \<open>
  The conversion of a \<^verbatim>\<open>PARINT\<close> to the \<^verbatim>\<open>size_t\<close> parameter \<^verbatim>\<open>nel\<close> of \<^verbatim>\<open>par_qsort\<close> (64 bits):
  a negative count becomes a huge one.
\<close>

definition size_t :: "int \<Rightarrow> int" where
  "size_t i = i mod 2 ^ 64"

text \<open>
  \<^verbatim>\<open>par_sprune__remove(arr, val)\<close>: \<open>scan_back\<close> is the search from the last element down
  (its third argument is \<^verbatim>\<open>i + 1\<close>, and \<open>None\<close> stands for \<^verbatim>\<open>i = -1\<close>), \<open>shift_left\<close> the loop of
  exchanges that moves the found element to the end, and \<open>butlast\<close> the final \<^verbatim>\<open>pa___n(arr)--\<close>.
  The capacity of the array does not change.
\<close>

fun scan_back :: "int list \<Rightarrow> int \<Rightarrow> nat \<Rightarrow> nat option" where
  "scan_back arr val 0 = None"
| "scan_back arr val (Suc i) = (if arr ! i = val then Some i else scan_back arr val i)"

function shift_left :: "nat \<Rightarrow> int list \<Rightarrow> int list" where
  "shift_left i arr =
     (if i < length arr then shift_left (i + 1) (arr[i - 1 := arr ! i, i := arr ! (i - 1)])
      else arr)"
  by pat_completeness auto
termination
  by (relation "measure (\<lambda>(i, arr). length arr - i)") auto

declare shift_left.simps [simp del]

definition par_sprune__remove :: "int list \<Rightarrow> int \<Rightarrow> error + int list" where
  "par_sprune__remove arr val =
     (case scan_back arr val (length arr) of
        None \<Rightarrow> Inl AssertionFailed
      | Some i \<Rightarrow> Inr (butlast (shift_left (i + 1) arr)))"

text \<open>
  The three comparators. \<^verbatim>\<open>par__cmpinds\<close> reads the coordinates through its sorter argument;
  when one of them is NaN both coordinate tests fail and the event indices decide.
\<close>

definition par__cmpinds :: "'a::linorder flt list \<Rightarrow> int \<Rightarrow> int \<Rightarrow> int" where
  "par__cmpinds aabbs a b =
     (let vala = aabbs ! nat a; valb = aabbs ! nat b in
      if flt_gt vala valb then 1
      else if flt_lt vala valb then - 1
      else if a > b then 1
      else if a < b then - 1
      else 0)"

definition par__cmppairs :: "int \<times> int \<Rightarrow> int \<times> int \<Rightarrow> int" where
  "par__cmppairs pa pb =
     (if fst pa > fst pb then 1
      else if fst pa < fst pb then - 1
      else if snd pa > snd pb then 1
      else if snd pa < snd pb then - 1
      else 0)"

definition par__cmpfind :: "int \<times> int \<Rightarrow> int \<times> int \<Rightarrow> int" where
  "par__cmpfind pa pb =
     (if fst pa > fst pb then 1
      else if fst pa < fst pb then - 1
      else if snd pa > snd pb then 1
      else if snd pa < snd pb then - 1
      else 0)"

text \<open>
  \<^verbatim>\<open>bsearch\<close> is the C library's: on a base sorted consistently with the comparator it finds
  an element that compares equal to the key exactly when there is one. The model is that
  contract; the base it is given is sorted by \<open>par_qsort\<close> just before.
\<close>

definition bsearch :: "'a compar \<Rightarrow> 'a \<Rightarrow> 'a list \<Rightarrow> bool" where
  "bsearch compar key base = list_ex (\<lambda>e. compar key e = 0) base"

text \<open>
  The inner loop of a min event (lines 328--333): one pair is pushed for every element of the
  active list.
\<close>

fun push_pairs :: "int \<Rightarrow> int list \<Rightarrow> (int \<times> int) pa \<Rightarrow> error + (int \<times> int) pa" where
  "push_pairs boxindex [] pairs = Inr pairs"
| "push_pairs boxindex (aj # rest) pairs =
     (case pa_push2 pairs (PAR_MIN aj boxindex) (PAR_MAX aj boxindex) of
        Inl e \<Rightarrow> Inl e
      | Inr pairs' \<Rightarrow> push_pairs boxindex rest pairs')"

text \<open>
  The body of the sweep loop for one event (lines 324--337), on the state
  \<^verbatim>\<open>(active, pairs[axis])\<close>, and the loop over the sorted events (line 323).
\<close>

definition sweep_event ::
  "nat \<Rightarrow> int \<Rightarrow> int pa \<times> (int \<times> int) pa \<Rightarrow> error + int pa \<times> (int \<times> int) pa" where
  "sweep_event axis fltindex st =
     (case st of (active, pairs) \<Rightarrow>
        let boxindex = fltindex sdiv 4;
            ismin = ((fltindex - int axis) smod 4 = 0)
        in if ismin then
             (case push_pairs boxindex (snd active) pairs of
                Inl e \<Rightarrow> Inl e
              | Inr pairs' \<Rightarrow>
                  (case pa_push active boxindex of
                     Inl e \<Rightarrow> Inl e
                   | Inr active' \<Rightarrow> Inr (active', pairs')))
           else
             (case par_sprune__remove (snd active) boxindex of
                Inl e \<Rightarrow> Inl e
              | Inr cells \<Rightarrow> Inr ((fst active, cells), pairs)))"

fun sweep ::
  "nat \<Rightarrow> int list \<Rightarrow> int pa \<times> (int \<times> int) pa \<Rightarrow> error + int pa \<times> (int \<times> int) pa" where
  "sweep axis [] st = Inr st"
| "sweep axis (fltindex # rest) st =
     (case sweep_event axis fltindex st of
        Inl e \<Rightarrow> Inl e
      | Inr st' \<Rightarrow> sweep axis rest st')"

text \<open>
  The resizing of the four buffers of the context (lines 300--305), in the order of the source.
  The result is the new capacity headers of the index buffers and of the flags buffers.
\<close>

definition resize_buffers ::
  "'a par_sprune_context \<Rightarrow> int \<Rightarrow>
     error + (nat option \<times> nat option) \<times> (nat option \<times> nat option)" where
  "resize_buffers ctx naabbs =
     (case pa_clear_add (fst (sorted_indices_m ctx)) (naabbs * 2) 4 of
        Inl e \<Rightarrow> Inl e
      | Inr si0 \<Rightarrow>
     (case pa_clear_add (fst (overlap_flags_m ctx)) (naabbs * 2) 1 of
        Inl e \<Rightarrow> Inl e
      | Inr fl0 \<Rightarrow>
     (case pa_clear_add (snd (sorted_indices_m ctx)) (naabbs * 2) 4 of
        Inl e \<Rightarrow> Inl e
      | Inr si1 \<Rightarrow>
     (case pa_clear_add (snd (overlap_flags_m ctx)) (naabbs * 2) 1 of
        Inl e \<Rightarrow> Inl e
      | Inr fl1 \<Rightarrow> Inr ((si0, si1), (fl0, fl1))))))"

text \<open>
  The initialisation loop (lines 306--313). Iteration \<open>i\<close> computes \<^verbatim>\<open>i * 4 + 3\<close>, writes the
  cells \<open>2i\<close> and \<open>2i + 1\<close> of the two index buffers, which hold at least \<open>2 * naabbs\<close> cells, and
  writes cell \<open>i\<close> of the two flags buffers. \<open>init_loop_error\<close> is the first thing that goes wrong:
  the multiplication overflows at \<open>i = 2^29\<close>, and the flags write is outside the block when \<open>i\<close>
  reaches the room of the smaller flags buffer.

  \<open>init_indices\<close> is the event order that the loop leaves: box \<open>i\<close> contributes the index of its
  minimum and of its maximum on the axis. \<open>init_flags\<close> is the contents of a flags buffer after
  the loop, as far as the block holds it: of its \<open>2 * naabbs\<close> cells the first \<open>naabbs\<close> are cleared
  and the others keep what was in the memory (the previous contents of a reused buffer, or
  whatever \<^verbatim>\<open>realloc\<close> returned), given by \<open>junk\<close>.
\<close>

definition init_loop_error :: "int \<Rightarrow> nat option \<times> nat option \<Rightarrow> error option" where
  "init_loop_error naabbs fl =
     (let room = min (pa_room (fst fl) 1) (pa_room (snd fl) 1) in
      if 2 ^ 29 < naabbs \<and> 2 ^ 29 \<le> room then Some IntOverflow
      else if room < naabbs then Some OutOfBounds
      else None)"

definition init_indices :: "int \<Rightarrow> nat \<Rightarrow> int list" where
  "init_indices naabbs axis =
     concat (map (\<lambda>i. [i * 4 + int axis, i * 4 + 2 + int axis]) [0..naabbs - 1])"

definition init_flags :: "int \<Rightarrow> nat option \<Rightarrow> (nat \<Rightarrow> bool) \<Rightarrow> bool list" where
  "init_flags naabbs fl_m junk =
     map (\<lambda>k. if int k < naabbs then False else junk k)
       [0..<nat (min (naabbs * 2) (pa_room fl_m 1))]"

definition calloc_context :: "'a par_sprune_context" where
  "calloc_context =
     \<lparr>collision_pairs = [], ncollision_pairs = 0, culled = [], nculled = 0,
      ctx_aabbs = [], ctx_naabbs = 0, sorted_indices = ([], []), overlap_flags = ([], []),
      collision_pairs_m = None, sorted_indices_m = (None, None),
      overlap_flags_m = (None, None)\<rparr>"

text \<open>
  One axis (lines 320--338): sort the events, clear the active list, sweep. The active list
  keeps its capacity from the previous axis; \<^verbatim>\<open>pairs[axis]\<close> starts as a null pointer. The sorted
  order stays in the context, the candidate pairs go to the intersection. The guard makes the
  two undefined behaviours of the call at line 321 explicit: \<^verbatim>\<open>par_qsort\<close> is told to sort
  \<open>size_t (naabbs * 2)\<close> cells of a buffer that holds \<open>length indices\<close>, and the comparator reads
  \<^verbatim>\<open>aabbs[a]\<close> for every event \<open>a\<close> of the axis (each event is compared at least once).
\<close>

definition axis_sweep ::
  "'a::linorder flt list \<Rightarrow> int \<Rightarrow> nat \<Rightarrow> int list \<Rightarrow> int pa \<Rightarrow>
     error + int list \<times> int pa \<times> (int \<times> int) list" where
  "axis_sweep aabbs naabbs axis indices active =
     (if size_t (naabbs * 2) \<noteq> int (length indices) \<or>
         list_ex (\<lambda>a. int (length aabbs) \<le> a) indices
      then Inl OutOfBounds
      else
        (let sorted = par_qsort (par__cmpinds aabbs) indices in
         case sweep axis sorted ((fst active, []), (None, [])) of
           Inl e \<Rightarrow> Inl e
         | Inr (active', pairs) \<Rightarrow> Inr (sorted, active', snd pairs)))"

text \<open>
  The intersection of the two candidate sequences (lines 342--355): both are sorted by pair key,
  then every pair of the first that \<^verbatim>\<open>bsearch\<close> finds in the second is pushed on the collision
  pairs, which were cleared and keep their capacity.
\<close>

fun collect ::
  "(int \<times> int) list \<Rightarrow> (int \<times> int) list \<Rightarrow> (int \<times> int) pa \<Rightarrow> error + (int \<times> int) pa" where
  "collect p1 [] found = Inr found"
| "collect p1 (key # rest) found =
     (if bsearch par__cmpfind key p1 then
        (case pa_push2 found (fst key) (snd key) of
           Inl e \<Rightarrow> Inl e
         | Inr found' \<Rightarrow> collect p1 rest found')
      else collect p1 rest found)"

definition intersect_pairs ::
  "(int \<times> int) list \<Rightarrow> (int \<times> int) list \<Rightarrow> nat option \<Rightarrow> error + (int \<times> int) pa" where
  "intersect_pairs pairs0 pairs1 found_m =
     (let p0 = par_qsort par__cmppairs pairs0;
          p1 = par_qsort par__cmppairs pairs1
      in collect p1 p0 (found_m, []))"

text \<open>
  \<^verbatim>\<open>par_sprune_overlap(aabbs, naabbs, previous)\<close>. The extra argument \<open>junk axis k\<close> is the value
  found in cell \<open>k\<close> of the flags buffer of \<open>axis\<close> before it is initialised. \<^verbatim>\<open>realloc\<close> is taken
  to succeed whenever the size it is asked for has been computed without overflow.
\<close>

definition par_sprune_overlap ::
  "'a::linorder flt list \<Rightarrow> int \<Rightarrow> 'a flt par_sprune_context option \<Rightarrow> (nat \<Rightarrow> nat \<Rightarrow> bool)
     \<Rightarrow> error + 'a flt par_sprune_context" where
  "par_sprune_overlap aabbs naabbs previous junk =
     (let ctx = (case previous of None \<Rightarrow> calloc_context | Some c \<Rightarrow> c);
          ctx = ctx\<lparr>ctx_aabbs := aabbs, ctx_naabbs := naabbs\<rparr>
      in if \<not> int_ok (naabbs * 2) then Inl IntOverflow
         else
     (case resize_buffers ctx naabbs of
        Inl e \<Rightarrow> Inl e
      | Inr (si, fl) \<Rightarrow>
     (case init_loop_error naabbs fl of
        Some e \<Rightarrow> Inl e
      | None \<Rightarrow>
     (case axis_sweep aabbs naabbs 0 (init_indices naabbs 0) (None, []) of
        Inl e \<Rightarrow> Inl e
      | Inr (sorted0, active, pairs0) \<Rightarrow>
     (case axis_sweep aabbs naabbs 1 (init_indices naabbs 1) active of
        Inl e \<Rightarrow> Inl e
      | Inr (sorted1, active', pairs1) \<Rightarrow>
     (case intersect_pairs pairs0 pairs1 (collision_pairs_m ctx) of
        Inl e \<Rightarrow> Inl e
      | Inr found \<Rightarrow>
          Inr (ctx\<lparr>sorted_indices := (sorted0, sorted1),
                   sorted_indices_m := si,
                   overlap_flags := (init_flags naabbs (fst fl) (junk 0),
                                     init_flags naabbs (snd fl) (junk 1)),
                   overlap_flags_m := fl,
                   collision_pairs := snd found,
                   collision_pairs_m := fst found,
                   ncollision_pairs := int (length (snd found))\<rparr>)))))))"

section \<open>The two entry points whose bodies are not in the source\<close>

text \<open>
  The header declares \<^verbatim>\<open>par_sprune_cull\<close> (lines 55--59) and \<^verbatim>\<open>par_sprune_update\<close> (lines 49--53)
  and documents them, but the implementation section ends with \<^verbatim>\<open>par_sprune_overlap\<close>. Both
  are modelled from the specification.
\<close>

subsection \<open>The culler\<close>

text \<open>
  Modelled from the spec: the helpers of \<^verbatim>\<open>par_sprune_cull\<close>, whose body is missing. The
  collision pairs are the edges of an undirected graph (section 4.5). \<open>degree\<close> is the number of
  remaining edges at a box; \<open>preferred\<close> is the selection order, highest degree first and the
  smaller id on equal degree; \<open>pick_vertex\<close> is the best end point of the remaining edges.
\<close>

definition incident :: "int \<Rightarrow> int \<times> int \<Rightarrow> bool" where
  "incident v e \<longleftrightarrow> fst e = v \<or> snd e = v"

definition degree :: "(int \<times> int) list \<Rightarrow> int \<Rightarrow> nat" where
  "degree edges v = length (filter (incident v) edges)"

definition endpoints :: "(int \<times> int) list \<Rightarrow> int list" where
  "endpoints edges = concat (map (\<lambda>e. [fst e, snd e]) edges)"

definition preferred :: "(int \<times> int) list \<Rightarrow> int \<Rightarrow> int \<Rightarrow> bool" where
  "preferred edges v w \<longleftrightarrow>
     degree edges v > degree edges w \<or> (degree edges v = degree edges w \<and> v < w)"

definition pick_vertex :: "(int \<times> int) list \<Rightarrow> int \<Rightarrow> int" where
  "pick_vertex edges v0 =
     fold (\<lambda>v best. if preferred edges v best then v else best) (endpoints edges) v0"

lemma fold_pick_mem:
  "fold (\<lambda>v best. if P v best then v else best) vs v0 \<in> insert v0 (set vs)"
  by (induction vs arbitrary: v0) auto

lemma endpoints_incident: "v \<in> set (endpoints edges) \<longleftrightarrow> (\<exists>e\<in>set edges. incident v e)"
  by (induction edges) (auto simp: endpoints_def incident_def)

lemma pick_vertex_incident:
  assumes "e \<in> set edges" "incident v0 e"
  shows "\<exists>e'\<in>set edges. incident (pick_vertex edges v0) e'"
proof -
  have "pick_vertex edges v0 \<in> insert v0 (set (endpoints edges))"
    unfolding pick_vertex_def by (rule fold_pick_mem)
  then consider "pick_vertex edges v0 = v0" | "pick_vertex edges v0 \<in> set (endpoints edges)"
    by auto
  then show ?thesis
  proof cases
    case 1
    with assms show ?thesis by auto
  next
    case 2
    then show ?thesis by (simp add: endpoints_incident)
  qed
qed

text \<open>
  Modelled from the spec: the greedy pass over one component of \<^verbatim>\<open>par_sprune_cull\<close>, whose
  body is missing. It selects the preferred box, adds it to the culled set and removes the
  edges that touch it, until no edge is left.
\<close>

function greedy_cover :: "(int \<times> int) list \<Rightarrow> int list" where
  "greedy_cover edges =
     (case edges of
        [] \<Rightarrow> []
      | e # _ \<Rightarrow>
          let v = pick_vertex edges (fst e)
          in v # greedy_cover (filter (\<lambda>e. \<not> incident v e) edges))"
  by pat_completeness auto
termination
proof (relation "measure length", goal_cases)
  case 1
  show ?case by simp
next
  case (2 edges e rest v)
  have "\<exists>e'\<in>set edges. incident (pick_vertex edges (fst e)) e'"
    by (rule pick_vertex_incident [of e]) (simp_all add: 2(1) incident_def)
  then obtain e' where e': "e' \<in> set edges" "incident v e'" using 2(2) by auto
  have "length (filter (\<lambda>e. \<not> incident v e) edges) < length edges"
    by (rule length_filter_less [OF e'(1)]) (simp add: e'(2))
  then show ?case by simp
qed

declare greedy_cover.simps [simp del]

text \<open>
  Modelled from the spec: the partition into connected components of \<^verbatim>\<open>par_sprune_cull\<close>,
  whose body is missing, as a union-find over the pair list: every pair merges the classes
  that contain one of its boxes. The edges of a component are the pairs that start in it.
\<close>

definition join_classes :: "int \<times> int \<Rightarrow> int list list \<Rightarrow> int list list" where
  "join_classes e classes =
     (let touched = filter (\<lambda>c. fst e \<in> set c \<or> snd e \<in> set c) classes;
          others = filter (\<lambda>c. \<not> (fst e \<in> set c \<or> snd e \<in> set c)) classes
      in remdups (fst e # snd e # concat touched) # others)"

definition components :: "(int \<times> int) list \<Rightarrow> int list list" where
  "components edges = fold join_classes edges []"

definition component_edges :: "int list \<Rightarrow> (int \<times> int) list \<Rightarrow> (int \<times> int) list" where
  "component_edges c edges = filter (\<lambda>e. fst e \<in> set c) edges"

definition cull_set :: "(int \<times> int) list \<Rightarrow> int list" where
  "cull_set edges =
     concat (map (\<lambda>c. greedy_cover (component_edges c edges)) (components edges))"

text \<open>
  Modelled from the spec: \<^verbatim>\<open>par_sprune_cull\<close>, declared at lines 55--59 and without a body in
  the source. It fills \<^verbatim>\<open>culled\<close> and \<^verbatim>\<open>nculled\<close> and leaves the rest of the context alone.
\<close>

definition par_sprune_cull :: "'a par_sprune_context \<Rightarrow> 'a par_sprune_context" where
  "par_sprune_cull ctx =
     (let cs = cull_set (collision_pairs ctx)
      in ctx\<lparr>culled := cs, nculled := int (length cs)\<rparr>)"

section \<open>Correctness of the sort\<close>

text \<open>
  A comparator is taken to define a total preorder: of two elements that compare greater one
  way, the other way compares less or equal, and less-or-equal is transitive.
\<close>

definition compar_total :: "'a compar \<Rightarrow> bool" where
  "compar_total compar \<longleftrightarrow> (\<forall>x y. 0 < compar x y \<longrightarrow> compar y x \<le> 0)"

definition compar_trans :: "'a compar \<Rightarrow> bool" where
  "compar_trans compar \<longleftrightarrow>
     (\<forall>x y z. compar x y \<le> 0 \<longrightarrow> compar y z \<le> 0 \<longrightarrow> compar x z \<le> 0)"

definition compar_le :: "'a compar \<Rightarrow> 'a \<Rightarrow> 'a \<Rightarrow> bool" where
  "compar_le compar x y \<longleftrightarrow> compar x y \<le> 0"

lemma mset_cmpswap:
  "a < length xs \<Longrightarrow> b < length xs \<Longrightarrow> mset (snd (par_qsort_cmpswap compar a b xs)) = mset xs"
  by (simp add: par_qsort_cmpswap_def mset_swap)

definition part_inv :: "'a compar \<Rightarrow> 'a \<Rightarrow> nat \<Rightarrow> nat \<Rightarrow> 'a list \<Rightarrow> bool" where
  "part_inv compar piv pl pr xs \<longleftrightarrow>
     pl \<le> pr \<and> pr < length xs \<and>
     (\<forall>i<pl. compar (xs ! i) piv \<le> 0) \<and>
     (\<forall>i. pr < i \<longrightarrow> i < length xs \<longrightarrow> compar piv (xs ! i) \<le> 0)"

lemma part_inv_up_swap:
  assumes tot: "compar_total compar" and inv: "part_inv compar piv pl pr xs"
    and lt: "pl < pr" and piv: "xs ! pr = piv" and gt: "0 < compar (xs ! pl) (xs ! pr)"
  shows "part_inv compar piv pl (pr - 1) (xs[pl := xs ! pr, pr := xs ! pl])"
proof -
  have "compar piv (xs ! pl) \<le> 0"
    using tot gt piv by (auto simp: compar_total_def)
  with inv lt piv show ?thesis
    by (auto simp: part_inv_def nth_list_update)
qed

lemma part_inv_up_skip:
  assumes inv: "part_inv compar piv pl pr xs"
    and lt: "pl < pr" and piv: "xs ! pr = piv" and le: "\<not> 0 < compar (xs ! pl) (xs ! pr)"
  shows "part_inv compar piv (pl + 1) pr xs"
  using assms by (auto simp: part_inv_def less_Suc_eq)

lemma part_inv_down_swap:
  assumes tot: "compar_total compar" and inv: "part_inv compar piv pl pr xs"
    and lt: "pl < pr" and piv: "xs ! pl = piv" and gt: "0 < compar (xs ! pl) (xs ! pr)"
  shows "part_inv compar piv (pl + 1) pr (xs[pl := xs ! pr, pr := xs ! pl])"
proof -
  have "compar (xs ! pr) piv \<le> 0"
    using tot gt piv by (auto simp: compar_total_def)
  with inv lt piv show ?thesis
    by (auto simp: part_inv_def nth_list_update less_Suc_eq)
qed

lemma part_inv_down_skip:
  assumes inv: "part_inv compar piv pl pr xs"
    and lt: "pl < pr" and piv: "xs ! pl = piv" and le: "\<not> 0 < compar (xs ! pl) (xs ! pr)"
  shows "part_inv compar piv pl (pr - 1) xs"
proof -
  have "compar piv (xs ! i) \<le> 0" if "pr - 1 < i" "i < length xs" for i
  proof (cases "i = pr")
    case True
    with le piv show ?thesis by simp
  next
    case False
    with that inv show ?thesis by (auto simp: part_inv_def)
  qed
  with inv lt show ?thesis by (auto simp: part_inv_def)
qed

lemma scan_up_inv:
  "compar_total compar \<Longrightarrow> part_inv compar piv pl pr xs \<Longrightarrow> xs ! pr = piv \<Longrightarrow>
     scan_up compar pl pr xs = (pl', pr', ys) \<Longrightarrow>
     part_inv compar piv pl' pr' ys \<and> ys ! pl' = piv \<and> mset ys = mset xs"
proof (induction compar pl pr xs rule: scan_up.induct)
  case (1 compar pl pr xs)
  note inv = \<open>part_inv compar piv pl pr xs\<close> and piv = \<open>xs ! pr = piv\<close>
    and res = \<open>scan_up compar pl pr xs = (pl', pr', ys)\<close>
  show ?case
  proof (cases "pl < pr")
    case False
    with res have e: "pl' = pl" "pr' = pr" "ys = xs"
      by (simp_all add: scan_up.simps [of compar pl pr xs])
    from False inv have "pl = pr" by (simp add: part_inv_def)
    with e inv piv show ?thesis by simp
  next
    case True
    show ?thesis
    proof (cases "0 < compar (xs ! pl) (xs ! pr)")
      case gt: True
      with True res have e: "pl' = pl" "pr' = pr - 1" "ys = xs[pl := xs ! pr, pr := xs ! pl]"
        by (auto simp: scan_up.simps [of compar pl pr xs] par_qsort_cmpswap_def)
      have "part_inv compar piv pl (pr - 1) (xs[pl := xs ! pr, pr := xs ! pl])"
        using part_inv_up_swap [OF "1.prems"(1) inv True piv gt] .
      moreover have "mset (xs[pl := xs ! pr, pr := xs ! pl]) = mset xs"
        using inv True by (simp add: part_inv_def mset_swap)
      moreover have "pl < length xs" "pr < length xs"
        using inv True by (auto simp: part_inv_def)
      ultimately show ?thesis
        using e piv True by simp
    next
      case le: False
      with True have c: "(False, xs) = par_qsort_cmpswap compar pl pr xs"
        by (simp add: par_qsort_cmpswap_def)
      from le True res have r: "scan_up compar (pl + 1) pr xs = (pl', pr', ys)"
        by (simp add: scan_up.simps [of compar pl pr xs] par_qsort_cmpswap_def)
      show ?thesis
        using "1.IH" [OF True c refl "1.prems"(1) part_inv_up_skip [OF inv True piv le] piv r] .
    qed
  qed
qed

lemma scan_down_inv:
  "compar_total compar \<Longrightarrow> part_inv compar piv pl pr xs \<Longrightarrow> xs ! pl = piv \<Longrightarrow>
     scan_down compar pl pr xs = (pl', pr', ys) \<Longrightarrow>
     part_inv compar piv pl' pr' ys \<and> ys ! pr' = piv \<and> mset ys = mset xs"
proof (induction compar pl pr xs rule: scan_down.induct)
  case (1 compar pl pr xs)
  note inv = \<open>part_inv compar piv pl pr xs\<close> and piv = \<open>xs ! pl = piv\<close>
    and res = \<open>scan_down compar pl pr xs = (pl', pr', ys)\<close>
  show ?case
  proof (cases "pl < pr")
    case False
    with res have e: "pl' = pl" "pr' = pr" "ys = xs"
      by (simp_all add: scan_down.simps [of compar pl pr xs])
    from False inv have "pl = pr" by (simp add: part_inv_def)
    with e inv piv show ?thesis by simp
  next
    case True
    show ?thesis
    proof (cases "0 < compar (xs ! pl) (xs ! pr)")
      case gt: True
      with True res have e: "pl' = pl + 1" "pr' = pr" "ys = xs[pl := xs ! pr, pr := xs ! pl]"
        by (auto simp: scan_down.simps [of compar pl pr xs] par_qsort_cmpswap_def)
      have "part_inv compar piv (pl + 1) pr (xs[pl := xs ! pr, pr := xs ! pl])"
        using part_inv_down_swap [OF "1.prems"(1) inv True piv gt] .
      moreover have "mset (xs[pl := xs ! pr, pr := xs ! pl]) = mset xs"
        using inv True by (simp add: part_inv_def mset_swap)
      moreover have "pl < length xs" "pr < length xs"
        using inv True by (auto simp: part_inv_def)
      ultimately show ?thesis
        using e piv True by simp
    next
      case le: False
      with True have c: "(False, xs) = par_qsort_cmpswap compar pl pr xs"
        by (simp add: par_qsort_cmpswap_def)
      from le True res have r: "scan_down compar pl (pr - 1) xs = (pl', pr', ys)"
        by (simp add: scan_down.simps [of compar pl pr xs] par_qsort_cmpswap_def)
      have piv': "xs ! pl = piv" by (rule piv)
      show ?thesis
        using "1.IH" [OF True c refl "1.prems"(1) part_inv_down_skip [OF inv True piv le] piv' r] .
    qed
  qed
qed

lemma partition_loop_inv:
  "compar_total compar \<Longrightarrow> part_inv compar piv pl pr xs \<Longrightarrow> xs ! pr = piv \<Longrightarrow>
     partition_loop compar pl pr xs = (p, ys) \<Longrightarrow>
     part_inv compar piv p p ys \<and> ys ! p = piv \<and> mset ys = mset xs"
proof (induction compar pl pr xs rule: partition_loop.induct)
  case (1 compar pl pr xs)
  note inv = \<open>part_inv compar piv pl pr xs\<close> and piv = \<open>xs ! pr = piv\<close>
    and res = \<open>partition_loop compar pl pr xs = (p, ys)\<close>
  show ?case
  proof (cases "pl < pr")
    case False
    with res have e: "p = pl" "ys = xs"
      by (simp_all add: partition_loop.simps [of compar pl pr xs])
    from False inv have "pl = pr" by (simp add: part_inv_def)
    with e inv piv show ?thesis by simp
  next
    case True
    obtain pl1 pr1 us where u: "scan_up compar pl pr xs = (pl1, pr1, us)"
      by (cases "scan_up compar pl pr xs")
    obtain pl2 pr2 zs where d: "scan_down compar pl1 pr1 us = (pl2, pr2, zs)"
      by (cases "scan_down compar pl1 pr1 us")
    from True u d res have r: "partition_loop compar pl2 pr2 zs = (p, ys)"
      by (simp add: partition_loop.simps [of compar pl pr xs])
    have su: "part_inv compar piv pl1 pr1 us \<and> us ! pl1 = piv \<and> mset us = mset xs"
      using scan_up_inv [OF \<open>compar_total compar\<close> inv piv u] .
    then have sd: "part_inv compar piv pl2 pr2 zs \<and> zs ! pr2 = piv \<and> mset zs = mset us"
      using scan_down_inv [OF \<open>compar_total compar\<close> _ _ d] by blast
    have "part_inv compar piv p p ys \<and> ys ! p = piv \<and> mset ys = mset zs"
      using "1.IH" [OF True u [symmetric] refl d [symmetric] refl "1.prems"(1) _ _ r] sd by blast
    with su sd show ?thesis by simp
  qed
qed

lemma insert_down_place:
  assumes tot: "compar_total compar" and tr: "compar_trans compar"
  shows "sorted_wrt (compar_le compar) A \<Longrightarrow> sorted_wrt (compar_le compar) (x # B) \<Longrightarrow>
     (\<forall>a\<in>set A. \<forall>b\<in>set B. compar_le compar a b) \<Longrightarrow>
     \<exists>C. insert_down compar (length A) (A @ x # B @ R) = C @ R \<and>
         mset C = mset A + {#x#} + mset B \<and> sorted_wrt (compar_le compar) C"
proof (induction A arbitrary: B rule: rev_induct)
  case Nil
  then show ?case by simp
next
  case (snoc a A)
  let ?le = "compar_le compar"
  have sA: "sorted_wrt ?le A" and aA: "\<forall>u\<in>set A. ?le u a"
    using snoc.prems(1) by (simp_all add: sorted_wrt_append)
  have nth1: "(A @ a # x # B @ R) ! length A = a" by simp
  have nth2: "(A @ a # x # B @ R) ! Suc (length A) = x"
    by (simp add: nth_append)
  show ?case
  proof (cases "0 < compar a x")
    case True
    then have xa: "?le x a"
      using tot by (simp add: compar_total_def compar_le_def)
    have sw: "par_qsort_cmpswap compar (length A) (Suc (length A)) (A @ a # x # B @ R)
        = (True, A @ x # (a # B) @ R)"
      using True nth1 nth2 by (simp add: par_qsort_cmpswap_def list_update_append)
    have s2: "sorted_wrt ?le (x # a # B)"
      using xa snoc.prems(2,3) by auto
    have s3: "\<forall>u\<in>set A. \<forall>b\<in>set (a # B). ?le u b"
      using aA snoc.prems(3) by auto
    from snoc.IH [OF sA s2 s3] obtain C where
      C: "insert_down compar (length A) (A @ x # (a # B) @ R) = C @ R"
        "mset C = mset A + {#x#} + mset (a # B)" "sorted_wrt ?le C"
      by blast
    have "insert_down compar (length (A @ [a])) ((A @ [a]) @ x # B @ R) = C @ R"
      using sw C(1) by simp
    moreover have "mset C = mset (A @ [a]) + {#x#} + mset B"
      using C(2) by simp
    ultimately show ?thesis using C(3) by blast
  next
    case False
    then have ax: "?le a x" by (simp add: compar_le_def)
    have sw: "par_qsort_cmpswap compar (length A) (Suc (length A)) (A @ a # x # B @ R)
        = (False, A @ a # x # B @ R)"
      using False nth1 nth2 by (simp add: par_qsort_cmpswap_def)
    have ux: "?le u x" if "u \<in> set A" for u
      using aA that ax tr unfolding compar_trans_def compar_le_def by blast
    have "sorted_wrt ?le ((A @ [a]) @ x # B)"
      using snoc.prems ax ux by (auto simp: sorted_wrt_append)
    moreover have "insert_down compar (length (A @ [a])) ((A @ [a]) @ x # B @ R)
        = ((A @ [a]) @ x # B) @ R"
      using sw by simp
    ultimately show ?thesis by (intro exI [of _ "(A @ [a]) @ x # B"]) simp
  qed
qed

lemma insertion_loop_sorts:
  "compar_total compar \<Longrightarrow> compar_trans compar \<Longrightarrow>
     sorted_wrt (compar_le compar) (take pi xs) \<Longrightarrow>
     sorted_wrt (compar_le compar) (insertion_loop compar pi xs) \<and>
     mset (insertion_loop compar pi xs) = mset xs"
proof (induction compar pi xs rule: insertion_loop.induct)
  case (1 compar pi xs)
  show ?case
  proof (cases "pi < length xs")
    case False
    with "1.prems"(3) show ?thesis
      by (simp add: insertion_loop.simps [of compar pi xs])
  next
    case True
    let ?A = "take pi xs" and ?R = "drop (Suc pi) xs"
    have split: "xs = ?A @ xs ! pi # [] @ ?R"
      using True by (simp add: id_take_nth_drop)
    have lA: "length ?A = pi" using True by simp
    from insert_down_place [OF "1.prems"(1,2) "1.prems"(3), of "xs ! pi" "[]" ?R]
    obtain C where C: "insert_down compar (length ?A) (?A @ xs ! pi # [] @ ?R) = C @ ?R"
      "mset C = mset ?A + {#xs ! pi#} + mset []" "sorted_wrt (compar_le compar) C"
      by auto
    have ins: "insert_down compar pi xs = C @ ?R"
      using C(1) lA split by simp
    have "size (mset C) = Suc pi" using C(2) lA by simp
    then have lC: "length C = pi + 1" by simp
    have tk: "take (pi + 1) (insert_down compar pi xs) = C"
      using ins lC by simp
    have "sorted_wrt (compar_le compar) (insertion_loop compar (pi + 1) (insert_down compar pi xs))
       \<and> mset (insertion_loop compar (pi + 1) (insert_down compar pi xs))
          = mset (insert_down compar pi xs)"
      using "1.IH" [OF True "1.prems"(1,2)] tk C(3) by simp
    moreover have "mset (insert_down compar pi xs) = mset xs"
    proof -
      have "mset (C @ ?R) = mset (?A @ xs ! pi # [] @ ?R)" using C(2) by simp
      with ins split show ?thesis by simp
    qed
    moreover have "insertion_loop compar pi xs
        = insertion_loop compar (pi + 1) (insert_down compar pi xs)"
      using True by (simp add: insertion_loop.simps [of compar pi xs])
    ultimately show ?thesis by simp
  qed
qed

lemma mset_pivot_swap:
  "m < length xs \<Longrightarrow> xs \<noteq> [] \<Longrightarrow>
     mset (xs[m := xs ! (length xs - 1), length xs - 1 := xs ! m]) = mset xs"
  by (simp add: mset_swap)

lemma par_qsort_sorts:
  "compar_total compar \<Longrightarrow> compar_trans compar \<Longrightarrow>
     mset (par_qsort compar xs) = mset xs \<and> sorted_wrt (compar_le compar) (par_qsort compar xs)"
proof (induction compar xs rule: par_qsort.induct)
  case (1 compar xs)
  note tot = \<open>compar_total compar\<close> and tr = \<open>compar_trans compar\<close>
  let ?le = "compar_le compar"
  show ?case
  proof (cases "length xs < 7")
    case True
    have "sorted_wrt ?le (take 1 xs)" by (cases xs) simp_all
    from insertion_loop_sorts [OF tot tr this] True show ?thesis
      by (simp add: par_qsort.simps [of compar xs])
  next
    case False
    define last where "last = length xs - 1"
    define m where "m = median3 compar xs"
    define ys where "ys = xs[m := xs ! last, last := xs ! m]"
    obtain p zs where pz: "partition_loop compar 0 last ys = (p, zs)"
      by (cases "partition_loop compar 0 last ys")
    define piv where "piv = ys ! last"
    have ne: "xs \<noteq> []" using False by auto
    have mlt: "m < length xs" unfolding m_def by (rule median3_less [OF ne])
    have mys: "mset ys = mset xs"
      unfolding ys_def last_def by (rule mset_pivot_swap [OF mlt ne])
    have lys: "length ys = length xs" by (simp add: ys_def)
    have inv0: "part_inv compar piv 0 last ys"
      using ne by (auto simp: part_inv_def lys last_def)
    from partition_loop_inv [OF tot inv0 _ pz] piv_def
    have inv: "part_inv compar piv p p zs" and zp: "zs ! p = piv" and mzs: "mset zs = mset ys"
      by auto
    have plt: "p < length zs" using inv by (simp add: part_inv_def)
    have eq: "par_qsort compar xs
        = par_qsort compar (take p zs) @ [zs ! p] @ par_qsort compar (drop (p + 1) zs)"
      using False pz
      by (simp add: par_qsort.simps [of compar xs] Let_def last_def m_def ys_def)
    have ih1: "mset (par_qsort compar (take p zs)) = mset (take p zs)
        \<and> sorted_wrt ?le (par_qsort compar (take p zs))"
      using "1.IH"(1) [OF False last_def m_def ys_def pz [symmetric] tot tr] .
    have ih2: "mset (par_qsort compar (drop (p + 1) zs)) = mset (drop (p + 1) zs)
        \<and> sorted_wrt ?le (par_qsort compar (drop (p + 1) zs))"
      using "1.IH"(2) [OF False last_def m_def ys_def pz [symmetric] tot tr] .
    have zsplit: "zs = take p zs @ zs ! p # drop (p + 1) zs"
      using plt by (simp add: id_take_nth_drop)
    have "mset (par_qsort compar xs) = mset (take p zs) + {#zs ! p#} + mset (drop (p + 1) zs)"
      using eq ih1 ih2 by simp
    also have "\<dots> = mset (take p zs @ zs ! p # drop (p + 1) zs)" by simp
    also have "\<dots> = mset zs" using zsplit by simp
    finally have perm: "mset (par_qsort compar xs) = mset xs" using mzs mys by simp
    have left: "?le u piv" if "u \<in> set (par_qsort compar (take p zs))" for u
    proof -
      from that ih1 have "u \<in> set (take p zs)" by (metis set_mset_mset)
      then obtain i where "i < p" "u = zs ! i"
        using plt by (auto simp: in_set_conv_nth)
      with inv show ?thesis by (simp add: part_inv_def compar_le_def)
    qed
    have right: "?le piv v" if "v \<in> set (par_qsort compar (drop (p + 1) zs))" for v
    proof -
      from that ih2 have "v \<in> set (drop (p + 1) zs)" by (metis set_mset_mset)
      then obtain i where "i < length zs - (p + 1)" "v = zs ! (p + 1 + i)"
        by (auto simp: in_set_conv_nth)
      with inv show ?thesis by (simp add: part_inv_def compar_le_def)
    qed
    have cross: "?le u v" if "u \<in> set (par_qsort compar (take p zs))"
      "v \<in> set (par_qsort compar (drop (p + 1) zs))" for u v
      using left [OF that(1)] right [OF that(2)] tr
      unfolding compar_trans_def compar_le_def by blast
    have "sorted_wrt ?le (par_qsort compar xs)"
      using eq ih1 ih2 left right cross zp by (auto simp: sorted_wrt_append)
    with perm show ?thesis by simp
  qed
qed

section \<open>Correctness of the sweep\<close>

subsection \<open>Facts that hold for every comparator\<close>

text \<open>
  Whatever the comparator, \<open>par_qsort\<close> only exchanges cells, so its result is a permutation of
  its input; and it consults the comparator on elements of the array only, so two comparators
  that agree on them sort it the same way.
\<close>

lemma mset_insert_down: "pj < length xs \<Longrightarrow> mset (insert_down compar pj xs) = mset xs"
proof (induction pj arbitrary: xs)
  case 0
  show ?case by simp
next
  case (Suc pj)
  obtain sw ys where r: "par_qsort_cmpswap compar pj (Suc pj) xs = (sw, ys)"
    by (cases "par_qsort_cmpswap compar pj (Suc pj) xs")
  have m: "mset ys = mset xs"
    using mset_cmpswap [of pj xs "Suc pj" compar] Suc.prems r by simp
  have l: "length ys = length xs"
    using length_cmpswap [of compar pj "Suc pj" xs] r by simp
  show ?case
  proof (cases sw)
    case True
    have "mset (insert_down compar pj ys) = mset ys"
      using Suc.IH [of ys] Suc.prems l by simp
    with True r m show ?thesis by simp
  next
    case False
    with r m show ?thesis by simp
  qed
qed

lemma mset_insertion_loop: "mset (insertion_loop compar pi xs) = mset xs"
proof (induction compar pi xs rule: insertion_loop.induct)
  case (1 compar pi xs)
  show ?case
  proof (cases "pi < length xs")
    case True
    with "1.IH" [OF True] mset_insert_down [OF True, of compar] show ?thesis
      by (simp add: insertion_loop.simps [of compar pi xs])
  next
    case False
    then show ?thesis by (simp add: insertion_loop.simps [of compar pi xs])
  qed
qed

lemma mset_scan_up:
  "scan_up compar pl pr xs = (pl', pr', ys) \<Longrightarrow> pr < length xs \<Longrightarrow> mset ys = mset xs"
proof (induction compar pl pr xs rule: scan_up.induct)
  case (1 compar pl pr xs)
  show ?case
  proof (cases "pl < pr")
    case False
    with "1.prems" show ?thesis by (simp add: scan_up.simps [of compar pl pr xs])
  next
    case True
    obtain sw us where r: "par_qsort_cmpswap compar pl pr xs = (sw, us)"
      by (cases "par_qsort_cmpswap compar pl pr xs")
    have m: "mset us = mset xs"
      using mset_cmpswap [of pl xs pr compar] True "1.prems"(2) r by simp
    have l: "length us = length xs"
      using length_cmpswap [of compar pl pr xs] r by simp
    show ?thesis
    proof (cases sw)
      case True
      with \<open>pl < pr\<close> r "1.prems"(1) m show ?thesis
        by (simp add: scan_up.simps [of compar pl pr xs])
    next
      case False
      with \<open>pl < pr\<close> r "1.prems"(1) have "scan_up compar (pl + 1) pr us = (pl', pr', ys)"
        by (simp add: scan_up.simps [of compar pl pr xs])
      from "1.IH" [OF \<open>pl < pr\<close> r [symmetric] _ this] False l "1.prems"(2) m
      show ?thesis by simp
    qed
  qed
qed

lemma mset_scan_down:
  "scan_down compar pl pr xs = (pl', pr', ys) \<Longrightarrow> pr < length xs \<Longrightarrow> mset ys = mset xs"
proof (induction compar pl pr xs rule: scan_down.induct)
  case (1 compar pl pr xs)
  show ?case
  proof (cases "pl < pr")
    case False
    with "1.prems" show ?thesis by (simp add: scan_down.simps [of compar pl pr xs])
  next
    case True
    obtain sw us where r: "par_qsort_cmpswap compar pl pr xs = (sw, us)"
      by (cases "par_qsort_cmpswap compar pl pr xs")
    have m: "mset us = mset xs"
      using mset_cmpswap [of pl xs pr compar] True "1.prems"(2) r by simp
    have l: "length us = length xs"
      using length_cmpswap [of compar pl pr xs] r by simp
    show ?thesis
    proof (cases sw)
      case True
      with \<open>pl < pr\<close> r "1.prems"(1) m show ?thesis
        by (simp add: scan_down.simps [of compar pl pr xs])
    next
      case False
      with \<open>pl < pr\<close> r "1.prems"(1) have "scan_down compar pl (pr - 1) us = (pl', pr', ys)"
        by (simp add: scan_down.simps [of compar pl pr xs])
      from "1.IH" [OF \<open>pl < pr\<close> r [symmetric] _ this] False l "1.prems"(2) m
      show ?thesis by simp
    qed
  qed
qed

lemma mset_partition_loop:
  "partition_loop compar pl pr xs = (p, ys) \<Longrightarrow> pr < length xs \<Longrightarrow> mset ys = mset xs"
proof (induction compar pl pr xs rule: partition_loop.induct)
  case (1 compar pl pr xs)
  show ?case
  proof (cases "pl < pr")
    case False
    with "1.prems" show ?thesis by (simp add: partition_loop.simps [of compar pl pr xs])
  next
    case True
    obtain pl1 pr1 us where u: "scan_up compar pl pr xs = (pl1, pr1, us)"
      by (cases "scan_up compar pl pr xs")
    obtain pl2 pr2 zs where d: "scan_down compar pl1 pr1 us = (pl2, pr2, zs)"
      by (cases "scan_down compar pl1 pr1 us")
    from True u d "1.prems"(1) have r: "partition_loop compar pl2 pr2 zs = (p, ys)"
      by (simp add: partition_loop.simps [of compar pl pr xs])
    from scan_up_gap [OF u] True have g1: "length us = length xs" "pr1 \<le> pr" by auto
    from scan_down_gap [OF d] scan_up_gap [OF u] True
    have g2: "length zs = length us" "pr2 \<le> pr1" by auto
    have m1: "mset us = mset xs" using mset_scan_up [OF u "1.prems"(2)] .
    have m2: "mset zs = mset us" using mset_scan_down [OF d] g1 "1.prems"(2) by simp
    have "mset ys = mset zs"
      using "1.IH" [OF True u [symmetric] refl d [symmetric] refl r] g1 g2 "1.prems"(2) by simp
    with m1 m2 show ?thesis by simp
  qed
qed

lemma mset_par_qsort: "mset (par_qsort compar xs) = mset xs"
proof (induction compar xs rule: par_qsort.induct)
  case (1 compar xs)
  show ?case
  proof (cases "length xs < 7")
    case True
    then show ?thesis by (simp add: par_qsort.simps [of compar xs] mset_insertion_loop)
  next
    case False
    define last where "last = length xs - 1"
    define m where "m = median3 compar xs"
    define ys where "ys = xs[m := xs ! last, last := xs ! m]"
    obtain p zs where pz: "partition_loop compar 0 last ys = (p, zs)"
      by (cases "partition_loop compar 0 last ys")
    have ne: "xs \<noteq> []" using False by auto
    have mlt: "m < length xs" unfolding m_def by (rule median3_less [OF ne])
    have mys: "mset ys = mset xs"
      unfolding ys_def last_def by (rule mset_pivot_swap [OF mlt ne])
    have lys: "length ys = length xs" by (simp add: ys_def)
    have ll: "last < length ys" using ne by (simp add: lys last_def)
    have mzs: "mset zs = mset ys" by (rule mset_partition_loop [OF pz ll])
    from partition_loop_bounds [OF pz] ll have plt: "p < length zs" by simp
    have eq: "par_qsort compar xs
        = par_qsort compar (take p zs) @ [zs ! p] @ par_qsort compar (drop (p + 1) zs)"
      using False pz
      by (simp add: par_qsort.simps [of compar xs] Let_def last_def m_def ys_def)
    have ih1: "mset (par_qsort compar (take p zs)) = mset (take p zs)"
      using "1.IH"(1) [OF False last_def m_def ys_def pz [symmetric]] .
    have ih2: "mset (par_qsort compar (drop (p + 1) zs)) = mset (drop (p + 1) zs)"
      using "1.IH"(2) [OF False last_def m_def ys_def pz [symmetric]] .
    have zsplit: "zs = take p zs @ zs ! p # drop (p + 1) zs"
      using plt by (simp add: id_take_nth_drop)
    have "mset (par_qsort compar xs) = mset (take p zs) + {#zs ! p#} + mset (drop (p + 1) zs)"
      using eq ih1 ih2 by simp
    also have "\<dots> = mset (take p zs @ zs ! p # drop (p + 1) zs)" by simp
    also have "\<dots> = mset zs" using zsplit by simp
    finally show ?thesis using mzs mys by simp
  qed
qed

definition agree_on :: "'a set \<Rightarrow> 'a compar \<Rightarrow> 'a compar \<Rightarrow> bool" where
  "agree_on S c c' \<longleftrightarrow> (\<forall>x\<in>S. \<forall>y\<in>S. c x y = c' x y)"

lemma cmpswap_cong:
  assumes "agree_on S c c'" and "set xs \<subseteq> S" and "a < length xs" and "b < length xs"
  shows "par_qsort_cmpswap c a b xs = par_qsort_cmpswap c' a b xs"
proof -
  have "xs ! a \<in> S" "xs ! b \<in> S" using assms(2-4) by auto
  then have "c (xs ! a) (xs ! b) = c' (xs ! a) (xs ! b)"
    using assms(1) by (simp add: agree_on_def)
  then show ?thesis by (simp add: par_qsort_cmpswap_def)
qed

lemma insert_down_cong:
  "agree_on S c c' \<Longrightarrow> set xs \<subseteq> S \<Longrightarrow> pj < length xs \<Longrightarrow>
     insert_down c pj xs = insert_down c' pj xs"
proof (induction pj arbitrary: xs)
  case 0
  show ?case by simp
next
  case (Suc pj)
  obtain sw ys where r: "par_qsort_cmpswap c pj (Suc pj) xs = (sw, ys)"
    by (cases "par_qsort_cmpswap c pj (Suc pj) xs")
  have r': "par_qsort_cmpswap c' pj (Suc pj) xs = (sw, ys)"
    using cmpswap_cong [of S c c' xs pj "Suc pj"] Suc.prems r by simp
  have "mset ys = mset xs"
    using mset_cmpswap [of pj xs "Suc pj" c] Suc.prems r by simp
  then have s: "set ys \<subseteq> S" using Suc.prems(2) by (metis set_mset_mset)
  have l: "length ys = length xs"
    using length_cmpswap [of c pj "Suc pj" xs] r by simp
  show ?case
  proof (cases sw)
    case True
    have "insert_down c pj ys = insert_down c' pj ys"
      using Suc.IH [OF Suc.prems(1) s] Suc.prems(3) l by simp
    with True r r' show ?thesis by simp
  next
    case False
    with r r' show ?thesis by simp
  qed
qed

lemma insertion_loop_cong:
  "agree_on S c c' \<Longrightarrow> set xs \<subseteq> S \<Longrightarrow> insertion_loop c pi xs = insertion_loop c' pi xs"
proof (induction c pi xs rule: insertion_loop.induct)
  case (1 c pi xs)
  show ?case
  proof (cases "pi < length xs")
    case True
    have e: "insert_down c pi xs = insert_down c' pi xs"
      using insert_down_cong [OF "1.prems"(1) "1.prems"(2) True] .
    have "set (insert_down c pi xs) \<subseteq> S"
      using mset_insert_down [OF True, of c] "1.prems"(2) by (metis set_mset_mset)
    from "1.IH" [OF True "1.prems"(1) this] e True show ?thesis
      by (simp add: insertion_loop.simps [of c pi xs] insertion_loop.simps [of c' pi xs])
  next
    case False
    then show ?thesis
      by (simp add: insertion_loop.simps [of c pi xs] insertion_loop.simps [of c' pi xs])
  qed
qed

lemma scan_up_cong:
  "agree_on S c c' \<Longrightarrow> set xs \<subseteq> S \<Longrightarrow> pr < length xs \<Longrightarrow>
     scan_up c pl pr xs = scan_up c' pl pr xs"
proof (induction c pl pr xs rule: scan_up.induct)
  case (1 c pl pr xs)
  show ?case
  proof (cases "pl < pr")
    case False
    then show ?thesis
      by (simp add: scan_up.simps [of c pl pr xs] scan_up.simps [of c' pl pr xs])
  next
    case True
    obtain sw us where r: "par_qsort_cmpswap c pl pr xs = (sw, us)"
      by (cases "par_qsort_cmpswap c pl pr xs")
    have r': "par_qsort_cmpswap c' pl pr xs = (sw, us)"
      using cmpswap_cong [of S c c' xs pl pr] "1.prems" True r by simp
    have "mset us = mset xs"
      using mset_cmpswap [of pl xs pr c] True "1.prems"(3) r by simp
    then have s: "set us \<subseteq> S" using "1.prems"(2) by (metis set_mset_mset)
    have l: "length us = length xs"
      using length_cmpswap [of c pl pr xs] r by simp
    show ?thesis
    proof (cases sw)
      case True
      with \<open>pl < pr\<close> r r' show ?thesis
        by (simp add: scan_up.simps [of c pl pr xs] scan_up.simps [of c' pl pr xs])
    next
      case False
      have "scan_up c (pl + 1) pr us = scan_up c' (pl + 1) pr us"
        using "1.IH" [OF \<open>pl < pr\<close> r [symmetric] _ "1.prems"(1) s] False l "1.prems"(3)
        by simp
      with False \<open>pl < pr\<close> r r' show ?thesis
        by (simp add: scan_up.simps [of c pl pr xs] scan_up.simps [of c' pl pr xs])
    qed
  qed
qed

lemma scan_down_cong:
  "agree_on S c c' \<Longrightarrow> set xs \<subseteq> S \<Longrightarrow> pr < length xs \<Longrightarrow>
     scan_down c pl pr xs = scan_down c' pl pr xs"
proof (induction c pl pr xs rule: scan_down.induct)
  case (1 c pl pr xs)
  show ?case
  proof (cases "pl < pr")
    case False
    then show ?thesis
      by (simp add: scan_down.simps [of c pl pr xs] scan_down.simps [of c' pl pr xs])
  next
    case True
    obtain sw us where r: "par_qsort_cmpswap c pl pr xs = (sw, us)"
      by (cases "par_qsort_cmpswap c pl pr xs")
    have r': "par_qsort_cmpswap c' pl pr xs = (sw, us)"
      using cmpswap_cong [of S c c' xs pl pr] "1.prems" True r by simp
    have "mset us = mset xs"
      using mset_cmpswap [of pl xs pr c] True "1.prems"(3) r by simp
    then have s: "set us \<subseteq> S" using "1.prems"(2) by (metis set_mset_mset)
    have l: "length us = length xs"
      using length_cmpswap [of c pl pr xs] r by simp
    show ?thesis
    proof (cases sw)
      case True
      with \<open>pl < pr\<close> r r' show ?thesis
        by (simp add: scan_down.simps [of c pl pr xs] scan_down.simps [of c' pl pr xs])
    next
      case False
      have "scan_down c pl (pr - 1) us = scan_down c' pl (pr - 1) us"
        using "1.IH" [OF \<open>pl < pr\<close> r [symmetric] _ "1.prems"(1) s] False l "1.prems"(3)
        by simp
      with False \<open>pl < pr\<close> r r' show ?thesis
        by (simp add: scan_down.simps [of c pl pr xs] scan_down.simps [of c' pl pr xs])
    qed
  qed
qed

lemma partition_loop_cong:
  "agree_on S c c' \<Longrightarrow> set xs \<subseteq> S \<Longrightarrow> pr < length xs \<Longrightarrow>
     partition_loop c pl pr xs = partition_loop c' pl pr xs"
proof (induction c pl pr xs rule: partition_loop.induct)
  case (1 c pl pr xs)
  show ?case
  proof (cases "pl < pr")
    case False
    then show ?thesis
      by (simp add: partition_loop.simps [of c pl pr xs] partition_loop.simps [of c' pl pr xs])
  next
    case True
    obtain pl1 pr1 us where u: "scan_up c pl pr xs = (pl1, pr1, us)"
      by (cases "scan_up c pl pr xs")
    obtain pl2 pr2 zs where d: "scan_down c pl1 pr1 us = (pl2, pr2, zs)"
      by (cases "scan_down c pl1 pr1 us")
    from scan_up_gap [OF u] True have g1: "length us = length xs" "pr1 \<le> pr" by auto
    from scan_down_gap [OF d] scan_up_gap [OF u] True
    have g2: "length zs = length us" "pr2 \<le> pr1" by auto
    have s1: "set us \<subseteq> S"
      using mset_scan_up [OF u "1.prems"(3)] "1.prems"(2) by (metis set_mset_mset)
    have p1: "pr1 < length us" using g1 "1.prems"(3) by simp
    have s2: "set zs \<subseteq> S"
      using mset_scan_down [OF d p1] s1 by (metis set_mset_mset)
    have p2: "pr2 < length zs" using g2 p1 by simp
    have u': "scan_up c' pl pr xs = (pl1, pr1, us)"
      using scan_up_cong [OF "1.prems", of pl] u by simp
    have d': "scan_down c' pl1 pr1 us = (pl2, pr2, zs)"
      using scan_down_cong [OF "1.prems"(1) s1 p1, of pl1] d by simp
    have "partition_loop c pl2 pr2 zs = partition_loop c' pl2 pr2 zs"
      using "1.IH" [OF True u [symmetric] refl d [symmetric] refl "1.prems"(1) s2 p2] .
    with True u d u' d' show ?thesis
      by (simp add: partition_loop.simps [of c pl pr xs] partition_loop.simps [of c' pl pr xs])
  qed
qed

lemma median3_cong:
  assumes "agree_on S c c'" and "set xs \<subseteq> S" and "xs \<noteq> []"
  shows "median3 c xs = median3 c' xs"
proof -
  have i: "xs ! i \<in> S" if "i < length xs" for i using that assms(2) by auto
  have e: "c (xs ! i) (xs ! j) = c' (xs ! i) (xs ! j)" if "i < length xs" "j < length xs" for i j
    using i [OF that(1)] i [OF that(2)] assms(1) by (simp add: agree_on_def)
  have l: "0 < length xs" "length xs div 2 < length xs" "length xs - 1 < length xs"
    using assms(3) by simp_all
  have a: "c (xs ! 0) (xs ! (length xs div 2)) = c' (xs ! 0) (xs ! (length xs div 2))"
    by (rule e [OF l(1) l(2)])
  have b: "c (xs ! (length xs div 2)) (xs ! (length xs - 1))
      = c' (xs ! (length xs div 2)) (xs ! (length xs - 1))"
    by (rule e [OF l(2) l(3)])
  have d: "c (xs ! 0) (xs ! (length xs - 1)) = c' (xs ! 0) (xs ! (length xs - 1))"
    by (rule e [OF l(1) l(3)])
  show ?thesis
    using a b d by (simp add: median3_def Let_def)
qed

lemma par_qsort_cong:
  "agree_on S c c' \<Longrightarrow> set xs \<subseteq> S \<Longrightarrow> par_qsort c xs = par_qsort c' xs"
proof (induction c xs rule: par_qsort.induct)
  case (1 c xs)
  show ?case
  proof (cases "length xs < 7")
    case True
    then show ?thesis
      using insertion_loop_cong [OF "1.prems", of 1]
      by (simp add: par_qsort.simps [of c xs] par_qsort.simps [of c' xs])
  next
    case False
    define last where "last = length xs - 1"
    define m where "m = median3 c xs"
    define ys where "ys = xs[m := xs ! last, last := xs ! m]"
    obtain p zs where pz: "partition_loop c 0 last ys = (p, zs)"
      by (cases "partition_loop c 0 last ys")
    have ne: "xs \<noteq> []" using False by auto
    have m': "m = median3 c' xs" unfolding m_def by (rule median3_cong [OF "1.prems" ne])
    have mlt: "m < length xs" unfolding m_def by (rule median3_less [OF ne])
    have mys: "mset ys = mset xs"
      unfolding ys_def last_def by (rule mset_pivot_swap [OF mlt ne])
    have sys: "set ys \<subseteq> S" using mys "1.prems"(2) by (metis set_mset_mset)
    have lys: "length ys = length xs" by (simp add: ys_def)
    have ll: "last < length ys" using ne by (simp add: lys last_def)
    have pz': "partition_loop c' 0 last ys = (p, zs)"
      using partition_loop_cong [OF "1.prems"(1) sys ll, of 0] pz by simp
    have szs: "set zs \<subseteq> S"
      using mset_partition_loop [OF pz ll] sys by (metis set_mset_mset)
    have s1: "set (take p zs) \<subseteq> S" using szs set_take_subset [of p zs] by blast
    have s2: "set (drop (p + 1) zs) \<subseteq> S" using szs set_drop_subset [of "p + 1" zs] by blast
    have eq: "par_qsort c xs
        = par_qsort c (take p zs) @ [zs ! p] @ par_qsort c (drop (p + 1) zs)"
      using False pz
      by (simp add: par_qsort.simps [of c xs] Let_def last_def m_def ys_def)
    have eq': "par_qsort c' xs
        = par_qsort c' (take p zs) @ [zs ! p] @ par_qsort c' (drop (p + 1) zs)"
      using False pz' m'
      by (simp add: par_qsort.simps [of c' xs] Let_def last_def ys_def)
    have ih1: "par_qsort c (take p zs) = par_qsort c' (take p zs)"
      using "1.IH"(1) [OF False last_def m_def ys_def pz [symmetric] "1.prems"(1) s1] .
    have ih2: "par_qsort c (drop (p + 1) zs) = par_qsort c' (drop (p + 1) zs)"
      using "1.IH"(2) [OF False last_def m_def ys_def pz [symmetric] "1.prems"(1) s2] .
    show ?thesis using eq eq' ih1 ih2 by simp
  qed
qed

subsection \<open>Removal from the active set\<close>

lemma scan_back_None: "scan_back arr val k = None \<longleftrightarrow> (\<forall>j<k. arr ! j \<noteq> val)"
  by (induction k) (auto simp: less_Suc_eq)

lemma scan_back_Some: "scan_back arr val k = Some i \<Longrightarrow> i < k \<and> arr ! i = val"
  by (induction k) (auto split: if_splits)

lemma shift_left_rotate: "shift_left (Suc (length A)) (A @ x # B) = A @ B @ [x]"
proof (induction B arbitrary: A)
  case Nil
  show ?case by (simp add: shift_left.simps [of "Suc (length A)" "A @ [x]"])
next
  case (Cons b B)
  have "shift_left (Suc (length A)) (A @ x # b # B)
      = shift_left (Suc (length (A @ [b]))) ((A @ [b]) @ x # B)"
    by (simp add: shift_left.simps [of "Suc (length A)" "A @ x # b # B"]
        nth_append list_update_append)
  also have "\<dots> = (A @ [b]) @ B @ [x]" by (rule Cons.IH)
  finally show ?case by simp
qed

lemma par_sprune__remove_absent:
  "val \<notin> set arr \<Longrightarrow> par_sprune__remove arr val = Inl AssertionFailed"
proof -
  assume "val \<notin> set arr"
  then have "\<forall>j<length arr. arr ! j \<noteq> val" by (auto simp: in_set_conv_nth)
  then have "scan_back arr val (length arr) = None" by (simp add: scan_back_None)
  then show ?thesis by (simp add: par_sprune__remove_def)
qed

lemma par_sprune__remove_present:
  assumes "val \<in> set arr" and "distinct arr"
  shows "\<exists>arr'. par_sprune__remove arr val = Inr arr' \<and> set arr' = set arr - {val} \<and> distinct arr'"
proof -
  from assms(1) have "\<not> (\<forall>j<length arr. arr ! j \<noteq> val)" by (auto simp: in_set_conv_nth)
  then obtain i where i: "scan_back arr val (length arr) = Some i"
    using scan_back_None [of arr val "length arr"] by (cases "scan_back arr val (length arr)") auto
  from scan_back_Some [OF i] have il: "i < length arr" and iv: "arr ! i = val" by auto
  define A B where "A = take i arr" and "B = drop (Suc i) arr"
  have "arr = take i arr @ arr ! i # drop (Suc i) arr"
    by (rule id_take_nth_drop [OF il])
  then have split: "arr = A @ val # B"
    using iv by (simp add: A_def B_def)
  have lA: "length A = i" using il by (simp add: A_def)
  have "shift_left (Suc (length A)) (A @ val # B) = A @ B @ [val]" by (rule shift_left_rotate)
  then have "butlast (shift_left (i + 1) arr) = A @ B"
    using split lA by (simp add: butlast_append)
  then have r: "par_sprune__remove arr val = Inr (A @ B)"
    using i by (simp add: par_sprune__remove_def)
  have "distinct (A @ val # B)" using assms(2) split by simp
  then have "distinct (A @ B)" "set (A @ B) = set (A @ val # B) - {val}" by auto
  with r split show ?thesis by auto
qed

subsection \<open>The comparators are total orders\<close>

text \<open>
  On coordinates that are not NaN the comparison of two events is the comparison of the pairs
  (coordinate, event index) in a linear order. \<open>ev_cmp\<close> is that comparator, for coordinates of
  any linearly ordered type; NaN, as the least element of the order on \<open>'a flt\<close>, is in its domain
  but \<^verbatim>\<open>par__cmpinds\<close> agrees with it only away from NaN.
\<close>

definition ev_cmp :: "'a::linorder list \<Rightarrow> int \<Rightarrow> int \<Rightarrow> int" where
  "ev_cmp aabbs a b =
     (let vala = aabbs ! nat a; valb = aabbs ! nat b in
      if vala > valb then 1
      else if vala < valb then - 1
      else if a > b then 1
      else if a < b then - 1
      else 0)"

definition ev_lt :: "'a::linorder list \<Rightarrow> int \<Rightarrow> int \<Rightarrow> bool" where
  "ev_lt aabbs a b \<longleftrightarrow>
     aabbs ! nat a < aabbs ! nat b \<or> (aabbs ! nat a = aabbs ! nat b \<and> a < b)"

definition pair_lt :: "int \<times> int \<Rightarrow> int \<times> int \<Rightarrow> bool" where
  "pair_lt p q \<longleftrightarrow> fst p < fst q \<or> (fst p = fst q \<and> snd p < snd q)"

lemma cmpinds_le: "compar_le (ev_cmp aabbs) a b \<longleftrightarrow> ev_lt aabbs a b \<or> a = b"
  by (auto simp: compar_le_def ev_cmp_def ev_lt_def Let_def)

lemma cmppairs_le: "compar_le par__cmppairs p q \<longleftrightarrow> pair_lt p q \<or> p = q"
  by (auto simp: compar_le_def par__cmppairs_def pair_lt_def prod_eq_iff)

lemma cmpinds_total: "compar_total (ev_cmp aabbs)"
  by (auto simp: compar_total_def ev_cmp_def Let_def)

lemma cmpinds_trans: "compar_trans (ev_cmp aabbs)"
  unfolding compar_trans_def ev_cmp_def Let_def
  by (auto split: if_splits)

lemma cmppairs_total: "compar_total par__cmppairs"
  by (auto simp: compar_total_def par__cmppairs_def)

lemma cmppairs_trans: "compar_trans par__cmppairs"
  unfolding compar_trans_def par__cmppairs_def
  by (auto split: if_splits)

lemma ev_lt_key: "ev_lt aabbs a b \<longleftrightarrow> (aabbs ! nat a, a) < (aabbs ! nat b, b)"
  by (auto simp: ev_lt_def)

lemma pair_lt_less: "pair_lt p q \<longleftrightarrow> p < q"
  by (cases p; cases q) (auto simp: pair_lt_def)

lemma ev_lt_trans: "ev_lt aabbs a b \<Longrightarrow> ev_lt aabbs b c \<Longrightarrow> ev_lt aabbs a c"
  unfolding ev_lt_key by (rule less_trans)

lemma ev_lt_asym: "ev_lt aabbs a b \<Longrightarrow> \<not> ev_lt aabbs b a"
  unfolding ev_lt_key by (rule less_not_sym)

lemma sorted_wrt_strict:
  assumes "sorted_wrt (\<lambda>x y. lt x y \<or> x = y) xs" and "distinct xs"
  shows "sorted_wrt lt xs"
  using assms by (induction xs) auto

lemma strict_sorted_unique:
  fixes xs ys :: "'a::linorder list"
  assumes "sorted_wrt (<) xs" "sorted_wrt (<) ys" "set xs = set ys"
  shows "xs = ys"
  using assms by (metis strict_sorted_equal)

lemma sorted_events_unique:
  assumes "sorted_wrt (ev_lt aabbs) xs" "sorted_wrt (ev_lt aabbs) ys" "set xs = set ys"
  shows "xs = ys"
proof -
  let ?k = "\<lambda>e. (aabbs ! nat e, e)"
  have "sorted_wrt (<) (map ?k xs)" "sorted_wrt (<) (map ?k ys)"
    using assms(1,2) by (simp_all only: sorted_wrt_map ev_lt_key [symmetric])
  moreover have "set (map ?k xs) = set (map ?k ys)" using assms(3) by simp
  ultimately have "map ?k xs = map ?k ys" by (rule strict_sorted_unique)
  then have "map snd (map ?k xs) = map snd (map ?k ys)" by simp
  then show ?thesis by (simp add: comp_def)
qed

lemma par_qsort_cmpinds:
  assumes "distinct xs"
  shows "sorted_wrt (ev_lt aabbs) (par_qsort (ev_cmp aabbs) xs)
     \<and> mset (par_qsort (ev_cmp aabbs) xs) = mset xs"
proof -
  let ?ys = "par_qsort (ev_cmp aabbs) xs"
  from par_qsort_sorts [OF cmpinds_total cmpinds_trans, of aabbs xs]
  have m: "mset ?ys = mset xs" and s: "sorted_wrt (compar_le (ev_cmp aabbs)) ?ys"
    by auto
  have "distinct ?ys" using m assms by (metis mset_eq_imp_distinct_iff)
  moreover have "sorted_wrt (\<lambda>a b. ev_lt aabbs a b \<or> a = b) ?ys"
    using s by (simp add: cmpinds_le [abs_def])
  ultimately have "sorted_wrt (ev_lt aabbs) ?ys" by (rule sorted_wrt_strict [rotated])
  with m show ?thesis by simp
qed

lemma par_qsort_cmppairs:
  assumes "distinct xs"
  shows "sorted_wrt pair_lt (par_qsort par__cmppairs xs)
     \<and> mset (par_qsort par__cmppairs xs) = mset xs"
proof -
  let ?ys = "par_qsort par__cmppairs xs"
  from par_qsort_sorts [OF cmppairs_total cmppairs_trans, of xs]
  have m: "mset ?ys = mset xs" and s: "sorted_wrt (compar_le par__cmppairs) ?ys"
    by auto
  have "distinct ?ys" using m assms by (metis mset_eq_imp_distinct_iff)
  moreover have "sorted_wrt (\<lambda>a b. pair_lt a b \<or> a = b) ?ys"
    using s by (simp add: cmppairs_le [abs_def])
  ultimately have "sorted_wrt pair_lt ?ys" by (rule sorted_wrt_strict [rotated])
  with m show ?thesis by simp
qed

subsection \<open>The events of one axis\<close>

definition minE :: "nat \<Rightarrow> int \<Rightarrow> int" where
  "minE axis b = b * 4 + int axis"

definition maxE :: "nat \<Rightarrow> int \<Rightarrow> int" where
  "maxE axis b = b * 4 + 2 + int axis"

lemma minE_inj [simp]: "minE axis a = minE axis b \<longleftrightarrow> a = b"
  by (simp add: minE_def)

lemma maxE_inj [simp]: "maxE axis a = maxE axis b \<longleftrightarrow> a = b"
  by (simp add: maxE_def)

lemma minE_neq_maxE [simp]: "minE axis a \<noteq> maxE axis b" "maxE axis b \<noteq> minE axis a"
  unfolding minE_def maxE_def by presburger+

lemma init_indices_Suc:
  "init_indices (int (Suc k)) axis = init_indices (int k) axis @ [minE axis (int k), maxE axis (int k)]"
proof -
  have "[0..int (Suc k) - 1] = [0..int k - 1] @ [int k]"
    using upto_rec2 [of 0 "int k"] by simp
  then show ?thesis by (simp add: init_indices_def minE_def maxE_def)
qed

lemma init_indices_0: "init_indices 0 axis = []"
  by (simp add: init_indices_def)

lemma set_init_indices_nat:
  "set (init_indices (int k) axis) = minE axis ` {0..<int k} \<union> maxE axis ` {0..<int k}"
proof (induction k)
  case 0
  show ?case by (simp add: init_indices_0)
next
  case (Suc k)
  have "{0..<int (Suc k)} = insert (int k) {0..<int k}" by auto
  with Suc show ?case unfolding init_indices_Suc by auto
qed

lemma distinct_init_indices_nat: "distinct (init_indices (int k) axis)"
proof (induction k)
  case 0
  show ?case by (simp add: init_indices_0)
next
  case (Suc k)
  then show ?case
    unfolding init_indices_Suc by (auto simp: set_init_indices_nat)
qed

lemma length_init_indices_nat: "length (init_indices (int k) axis) = 2 * k"
proof (induction k)
  case 0
  show ?case by (simp add: init_indices_0)
next
  case (Suc k)
  then show ?case unfolding init_indices_Suc by simp
qed

subsection \<open>One step of the sweep\<close>

text \<open>
  The sweep without the capacity headers: the lists of the active boxes and of the pairs only.
  The sweep of the model refines it (below).
\<close>

definition plain_event ::
  "nat \<Rightarrow> int \<Rightarrow> int list \<times> (int \<times> int) list \<Rightarrow> error + int list \<times> (int \<times> int) list" where
  "plain_event axis fltindex st =
     (case st of (active, pairs) \<Rightarrow>
        let boxindex = fltindex sdiv 4;
            ismin = ((fltindex - int axis) smod 4 = 0)
        in if ismin then
             Inr (active @ [boxindex],
                  pairs @ map (\<lambda>aj. (PAR_MIN aj boxindex, PAR_MAX aj boxindex)) active)
           else
             (case par_sprune__remove active boxindex of
                Inl e \<Rightarrow> Inl e
              | Inr active' \<Rightarrow> Inr (active', pairs)))"

fun plain_sweep ::
  "nat \<Rightarrow> int list \<Rightarrow> int list \<times> (int \<times> int) list \<Rightarrow> error + int list \<times> (int \<times> int) list" where
  "plain_sweep axis [] st = Inr st"
| "plain_sweep axis (fltindex # rest) st =
     (case plain_event axis fltindex st of
        Inl e \<Rightarrow> Inl e
      | Inr st' \<Rightarrow> plain_sweep axis rest st')"

lemma sdiv_nonneg: "0 \<le> a \<Longrightarrow> 0 < b \<Longrightarrow> a sdiv b = a div (b::int)"
  by (cases "a = 0") (simp_all add: signed_divide_int_def sgn_if)

lemma smod_nonneg: "0 \<le> a \<Longrightarrow> a smod b = a mod \<bar>b::int\<bar>"
  by (cases "a = 0") (simp_all add: signed_modulo_int_def sgn_if)

lemma plain_event_min:
  assumes "axis < 2" "0 \<le> b"
  shows "plain_event axis (minE axis b) (active, pairs)
    = Inr (active @ [b], pairs @ map (\<lambda>aj. (PAR_MIN aj b, PAR_MAX aj b)) active)"
proof -
  have "0 \<le> minE axis b" using assms by (simp add: minE_def)
  then have "minE axis b sdiv 4 = minE axis b div 4" by (simp add: sdiv_nonneg)
  also have "\<dots> = b" using assms by (simp add: minE_def)
  finally have d: "minE axis b sdiv 4 = b" .
  have "(minE axis b - int axis) smod 4 = (b * 4) mod 4"
    using assms by (simp add: minE_def smod_nonneg)
  then have m: "(minE axis b - int axis) smod 4 = 0" by simp
  show ?thesis by (simp add: plain_event_def d m)
qed

lemma plain_event_max:
  assumes "axis < 2" "0 \<le> b"
  shows "plain_event axis (maxE axis b) (active, pairs)
    = (case par_sprune__remove active b of
         Inl e \<Rightarrow> Inl e
       | Inr active' \<Rightarrow> Inr (active', pairs))"
proof -
  have "0 \<le> maxE axis b" using assms by (simp add: maxE_def)
  then have "maxE axis b sdiv 4 = maxE axis b div 4" by (simp add: sdiv_nonneg)
  also have "\<dots> = b" using assms by (simp add: maxE_def)
  finally have d: "maxE axis b sdiv 4 = b" .
  have "(maxE axis b - int axis) smod 4 = (b * 4 + 2) mod 4"
    using assms by (simp add: maxE_def smod_nonneg)
  then have m: "(maxE axis b - int axis) smod 4 = 2" by simp
  show ?thesis by (simp add: plain_event_def d m)
qed

lemma plain_sweep_append:
  "plain_sweep axis (xs @ ys) st =
     (case plain_sweep axis xs st of Inl e \<Rightarrow> Inl e | Inr st' \<Rightarrow> plain_sweep axis ys st')"
  by (induction xs arbitrary: st) (auto split: sum.splits)

subsection \<open>The sweep invariant\<close>

definition open_boxes :: "int \<Rightarrow> nat \<Rightarrow> int list \<Rightarrow> int set" where
  "open_boxes n axis pre =
     {b. 0 \<le> b \<and> b < n \<and> minE axis b \<in> set pre \<and> maxE axis b \<notin> set pre}"

definition cand :: "'a::linorder list \<Rightarrow> int \<Rightarrow> nat \<Rightarrow> int list \<Rightarrow> (int \<times> int) set" where
  "cand aabbs n axis pre =
     {(a, b). 0 \<le> a \<and> a < b \<and> b < n \<and> minE axis a \<in> set pre \<and> minE axis b \<in> set pre \<and>
        ev_lt aabbs (minE axis a) (maxE axis b) \<and> ev_lt aabbs (minE axis b) (maxE axis a)}"

definition sweep_ctx :: "'a::linorder list \<Rightarrow> int \<Rightarrow> nat \<Rightarrow> int list \<Rightarrow> bool" where
  "sweep_ctx aabbs n axis evs \<longleftrightarrow>
     axis < 2 \<and> sorted_wrt (ev_lt aabbs) evs \<and>
     set evs = minE axis ` {0..<n} \<union> maxE axis ` {0..<n} \<and>
     (\<forall>b. 0 \<le> b \<and> b < n \<longrightarrow> ev_lt aabbs (minE axis b) (maxE axis b))"

lemma sweep_ctx_split:
  assumes "sweep_ctx aabbs n axis (pre @ e # post)"
  shows "\<forall>x\<in>set pre. ev_lt aabbs x e" "\<forall>y\<in>set post. ev_lt aabbs e y"
    "e \<notin> set pre" "e \<notin> set post"
proof -
  have s: "sorted_wrt (ev_lt aabbs) (pre @ e # post)"
    using assms by (simp add: sweep_ctx_def)
  show 1: "\<forall>x\<in>set pre. ev_lt aabbs x e" and 2: "\<forall>y\<in>set post. ev_lt aabbs e y"
    using s by (auto simp: sorted_wrt_append)
  show "e \<notin> set pre" using 1 ev_lt_asym by blast
  show "e \<notin> set post" using 2 ev_lt_asym by blast
qed

lemma sweep_ctx_before:
  assumes c: "sweep_ctx aabbs n axis (pre @ e # post)"
    and x: "x \<in> minE axis ` {0..<n} \<union> maxE axis ` {0..<n}" and lt: "ev_lt aabbs x e"
  shows "x \<in> set pre"
proof -
  have "x \<in> set (pre @ e # post)" using c x by (simp add: sweep_ctx_def)
  moreover have "x \<noteq> e" using lt ev_lt_asym by blast
  moreover have "x \<notin> set post"
    using sweep_ctx_split(2) [OF c] lt ev_lt_asym by blast
  ultimately show ?thesis by auto
qed

lemma sweep_ctx_after:
  assumes c: "sweep_ctx aabbs n axis (pre @ e # post)" and lt: "ev_lt aabbs e x"
  shows "x \<notin> set pre"
  using sweep_ctx_split(1) [OF c] lt ev_lt_asym by blast

lemma sweep_ctx_not_before:
  assumes c: "sweep_ctx aabbs n axis (pre @ e # post)"
    and x: "x \<in> minE axis ` {0..<n} \<union> maxE axis ` {0..<n}"
    and "x \<notin> set pre" "x \<noteq> e"
  shows "ev_lt aabbs e x"
proof -
  have "x \<in> set (pre @ e # post)" using c x by (simp add: sweep_ctx_def)
  with assms(3,4) have "x \<in> set post" by auto
  with sweep_ctx_split(2) [OF c] show ?thesis by blast
qed

lemma sweep_ctx_box:
  "sweep_ctx aabbs n axis evs \<Longrightarrow> 0 \<le> b \<Longrightarrow> b < n \<Longrightarrow> ev_lt aabbs (minE axis b) (maxE axis b)"
  by (simp add: sweep_ctx_def)

lemma open_boxes_min:
  assumes c: "sweep_ctx aabbs n axis (pre @ minE axis b # post)" and b: "0 \<le> b" "b < n"
  shows "open_boxes n axis (pre @ [minE axis b]) = insert b (open_boxes n axis pre)"
proof -
  have "maxE axis b \<notin> set pre"
    using sweep_ctx_after [OF c sweep_ctx_box [OF c b]] .
  then show ?thesis using b by (auto simp: open_boxes_def)
qed

lemma open_boxes_max:
  "open_boxes n axis (pre @ [maxE axis b]) = open_boxes n axis pre - {b}"
  by (auto simp: open_boxes_def)

lemma open_boxes_max_mem:
  assumes c: "sweep_ctx aabbs n axis (pre @ maxE axis b # post)" and b: "0 \<le> b" "b < n"
  shows "b \<in> open_boxes n axis pre"
proof -
  have "minE axis b \<in> set pre"
    using sweep_ctx_before [OF c _ sweep_ctx_box [OF c b]] b by auto
  moreover have "maxE axis b \<notin> set pre" using sweep_ctx_split(3) [OF c] .
  ultimately show ?thesis using b by (simp add: open_boxes_def)
qed

lemma cand_max: "cand aabbs n axis (pre @ [maxE axis b]) = cand aabbs n axis pre"
  by (auto simp: cand_def)

definition mk_pair :: "int \<Rightarrow> int \<Rightarrow> int \<times> int" where
  "mk_pair b aj = (PAR_MIN aj b, PAR_MAX aj b)"

lemma mk_pair_cases:
  "aj \<noteq> b \<Longrightarrow> (aj < b \<and> mk_pair b aj = (aj, b)) \<or> (b < aj \<and> mk_pair b aj = (b, aj))"
  by (auto simp: mk_pair_def PAR_MIN_def PAR_MAX_def)

lemma cand_min:
  assumes c: "sweep_ctx aabbs n axis (pre @ minE axis b # post)" and b: "0 \<le> b" "b < n"
  shows "cand aabbs n axis (pre @ [minE axis b])
    = cand aabbs n axis pre \<union> mk_pair b ` open_boxes n axis pre"
proof (intro set_eqI iffI)
  fix p
  assume p: "p \<in> cand aabbs n axis (pre @ [minE axis b])"
  obtain u v where uv: "p = (u, v)" by (cases p)
  from p uv have h: "0 \<le> u" "u < v" "v < n"
    "minE axis u \<in> set pre \<or> u = b" "minE axis v \<in> set pre \<or> v = b"
    "ev_lt aabbs (minE axis u) (maxE axis v)" "ev_lt aabbs (minE axis v) (maxE axis u)"
    by (auto simp: cand_def)
  have nb: "minE axis b \<notin> set pre" using sweep_ctx_split(3) [OF c] .
  show "p \<in> cand aabbs n axis pre \<union> mk_pair b ` open_boxes n axis pre"
  proof (cases "u = b \<or> v = b")
    case False
    with h uv show ?thesis by (auto simp: cand_def)
  next
    case True
    then show ?thesis
    proof
      assume ub: "u = b"
      with h have "minE axis v \<in> set pre" by auto
      moreover have "maxE axis v \<notin> set pre"
        using sweep_ctx_after [OF c] h(6) ub by blast
      ultimately have "v \<in> open_boxes n axis pre"
        using h by (simp add: open_boxes_def)
      moreover have "mk_pair b v = (u, v)"
        using mk_pair_cases [of v b] h ub by auto
      ultimately have "p \<in> mk_pair b ` open_boxes n axis pre"
        using uv by (metis imageI)
      then show ?thesis by simp
    next
      assume vb: "v = b"
      with h have "minE axis u \<in> set pre" by auto
      moreover have "maxE axis u \<notin> set pre"
        using sweep_ctx_after [OF c] h(7) vb by blast
      ultimately have "u \<in> open_boxes n axis pre"
        using h by (simp add: open_boxes_def)
      moreover have "mk_pair b u = (u, v)"
        using mk_pair_cases [of u b] h vb by auto
      ultimately have "p \<in> mk_pair b ` open_boxes n axis pre"
        using uv by (metis imageI)
      then show ?thesis by simp
    qed
  qed
next
  fix p
  assume "p \<in> cand aabbs n axis pre \<union> mk_pair b ` open_boxes n axis pre"
  then show "p \<in> cand aabbs n axis (pre @ [minE axis b])"
  proof
    assume "p \<in> cand aabbs n axis pre"
    then show ?thesis by (auto simp: cand_def)
  next
    assume "p \<in> mk_pair b ` open_boxes n axis pre"
    then obtain aj where aj: "aj \<in> open_boxes n axis pre" and p: "p = mk_pair b aj" by auto
    from aj have a: "0 \<le> aj" "aj < n" "minE axis aj \<in> set pre" "maxE axis aj \<notin> set pre"
      by (auto simp: open_boxes_def)
    have ne: "aj \<noteq> b" using a(3) sweep_ctx_split(3) [OF c] by auto
    have l1: "ev_lt aabbs (minE axis aj) (maxE axis b)"
      using sweep_ctx_split(1) [OF c] a(3) sweep_ctx_box [OF c b] ev_lt_trans by blast
    have l2: "ev_lt aabbs (minE axis b) (maxE axis aj)"
      using sweep_ctx_not_before [OF c _ a(4)] a(1,2) by auto
    from mk_pair_cases [OF ne] show ?thesis
      using p a b l1 l2 by (auto simp: cand_def)
  qed
qed

lemma mk_pair_inj: "inj_on (mk_pair b) (A - {b})"
proof (rule inj_onI)
  fix x y
  assume "x \<in> A - {b}" "y \<in> A - {b}" "mk_pair b x = mk_pair b y"
  then show "x = y"
    using mk_pair_cases [of x b] mk_pair_cases [of y b] by auto
qed

lemma sweep_prefix:
  "sweep_ctx aabbs n axis (pre @ post) \<Longrightarrow>
     \<exists>active pairs. plain_sweep axis pre ([], []) = Inr (active, pairs) \<and>
        distinct active \<and> set active = open_boxes n axis pre \<and>
        distinct pairs \<and> set pairs = cand aabbs n axis pre"
proof (induction pre arbitrary: post rule: rev_induct)
  case Nil
  show ?case by (simp add: open_boxes_def cand_def)
next
  case (snoc e pre)
  have c: "sweep_ctx aabbs n axis (pre @ e # post)" using snoc.prems by simp
  from snoc.IH [OF c] obtain active pairs where
    sw: "plain_sweep axis pre ([], []) = Inr (active, pairs)" and
    da: "distinct active" and sa: "set active = open_boxes n axis pre" and
    dp: "distinct pairs" and sp: "set pairs = cand aabbs n axis pre"
    by blast
  have ax: "axis < 2" using c by (simp add: sweep_ctx_def)
  have "e \<in> minE axis ` {0..<n} \<union> maxE axis ` {0..<n}"
    using c by (auto simp: sweep_ctx_def)
  then consider b where "0 \<le> b" "b < n" "e = minE axis b"
    | b where "0 \<le> b" "b < n" "e = maxE axis b"
    by auto
  then show ?case
  proof cases
    case 1
    note b = 1(1,2)
    have c': "sweep_ctx aabbs n axis (pre @ minE axis b # post)" using c 1 by simp
    have nb: "b \<notin> set active"
      using sa sweep_ctx_split(3) [OF c'] by (simp add: open_boxes_def)
    have step: "plain_sweep axis (pre @ [e]) ([], [])
        = Inr (active @ [b], pairs @ map (mk_pair b) active)"
      using sw plain_event_min [OF ax b(1)] 1(3)
      by (simp add: plain_sweep_append mk_pair_def [abs_def])
    have "distinct (active @ [b])" using da nb by simp
    moreover have "set (active @ [b]) = open_boxes n axis (pre @ [e])"
      using open_boxes_min [OF c' b] sa 1(3) by simp
    moreover have "set (pairs @ map (mk_pair b) active) = cand aabbs n axis (pre @ [e])"
      using cand_min [OF c' b] sa sp 1(3) by simp
    moreover have "distinct (pairs @ map (mk_pair b) active)"
    proof -
      have "inj_on (mk_pair b) (set active)"
        using mk_pair_inj [of b "set active"] nb by simp
      then have "distinct (map (mk_pair b) active)" using da by (simp add: distinct_map)
      moreover have "set pairs \<inter> mk_pair b ` set active = {}"
      proof -
        have "p \<notin> cand aabbs n axis pre" if "aj \<in> set active" "p = mk_pair b aj" for p aj
        proof -
          have "aj \<noteq> b" using that nb by auto
          from mk_pair_cases [OF this] that(2) sweep_ctx_split(3) [OF c']
          show ?thesis by (auto simp: cand_def)
        qed
        then show ?thesis using sp by auto
      qed
      ultimately show ?thesis using dp by simp
    qed
    ultimately show ?thesis using step by blast
  next
    case 2
    note b = 2(1,2)
    have c': "sweep_ctx aabbs n axis (pre @ maxE axis b # post)" using c 2 by simp
    have "b \<in> set active" using open_boxes_max_mem [OF c' b] sa by simp
    from par_sprune__remove_present [OF this da] obtain active' where
      r: "par_sprune__remove active b = Inr active'" and
      sr: "set active' = set active - {b}" and dr: "distinct active'"
      by blast
    have step: "plain_sweep axis (pre @ [e]) ([], []) = Inr (active', pairs)"
      using sw plain_event_max [OF ax b(1)] 2(3) r by (simp add: plain_sweep_append)
    have "set active' = open_boxes n axis (pre @ [e])"
      using sr sa open_boxes_max [of n axis pre b] 2(3) by simp
    moreover have "set pairs = cand aabbs n axis (pre @ [e])"
      using sp cand_max [of aabbs n axis pre b] 2(3) by simp
    ultimately show ?thesis using step dr dp by blast
  qed
qed

subsection \<open>The sweep of the model refines the sweep of the lists\<close>

lemma par_sprune__remove_split:
  assumes "par_sprune__remove arr val = Inr arr'"
  shows "\<exists>A B. arr = A @ val # B \<and> arr' = A @ B"
proof -
  from assms obtain i where i: "scan_back arr val (length arr) = Some i"
    and r: "arr' = butlast (shift_left (i + 1) arr)"
    by (auto simp: par_sprune__remove_def split: option.splits)
  from scan_back_Some [OF i] have il: "i < length arr" and v: "arr ! i = val" by simp_all
  define A B where "A = take i arr" and "B = drop (Suc i) arr"
  have "arr = take i arr @ arr ! i # drop (Suc i) arr"
    by (rule id_take_nth_drop [OF il])
  then have split: "arr = A @ val # B" by (simp add: A_def B_def v)
  have lA: "length A = i" using il by (simp add: A_def)
  have "shift_left (Suc (length A)) (A @ val # B) = A @ B @ [val]"
    by (rule shift_left_rotate)
  then have "shift_left (i + 1) arr = A @ B @ [val]" using lA split by simp
  then have "arr' = A @ B" using r by (simp add: butlast_append)
  with split show ?thesis by blast
qed

lemma maybegrow_push:
  assumes "0 \<le> k" and "k + 1 < 2 ^ 28"
  shows "\<exists>m'. pa___maybegrow m k 1 4 = Inr (Some m')"
proof (cases m)
  case None
  then show ?thesis
    by (simp add: pa___maybegrow_def pa___growf_def int_ok_def)
next
  case (Some m0)
  show ?thesis
  proof (cases "k + 1 \<ge> int m0")
    case True
    with assms have "int_ok (2 * int m0)" "int_ok (k + 1)"
      "int_ok (4 * (if 2 * int m0 > k + 1 then 2 * int m0 else k + 1))"
      by (simp_all add: int_ok_def)
    with True Some show ?thesis
      by (simp add: pa___maybegrow_def pa___growf_def Let_def)
  next
    case False
    with Some show ?thesis by (simp add: pa___maybegrow_def)
  qed
qed

lemma maybegrow_error: "pa___maybegrow m k n itemsize = Inl e \<Longrightarrow> e = IntOverflow"
  by (auto simp: pa___maybegrow_def pa___growf_def Let_def split: option.splits if_splits)

lemma pa_push_sound: "pa_push a v = Inr a' \<Longrightarrow> snd a' = snd a @ [v]"
  by (auto simp: pa_push_def split: sum.splits)

lemma pa_push_error: "pa_push a v = Inl e \<Longrightarrow> e = IntOverflow"
  by (auto simp: pa_push_def split: sum.splits dest: maybegrow_error)

lemma pa_push_ok:
  assumes "int (length (snd a)) + 1 < 2 ^ 28"
  shows "\<exists>m'. pa_push a v = Inr (m', snd a @ [v])"
proof -
  from maybegrow_push [of "int (length (snd a))" "fst a"] assms
  obtain m' where "pa___maybegrow (fst a) (int (length (snd a))) 1 4 = Inr (Some m')" by auto
  then show ?thesis by (simp add: pa_push_def)
qed

lemma pa_push2_sound: "pa_push2 a x y = Inr a' \<Longrightarrow> snd a' = snd a @ [(x, y)]"
  by (auto simp: pa_push2_def split: sum.splits)

lemma pa_push2_error: "pa_push2 a x y = Inl e \<Longrightarrow> e = IntOverflow"
  by (auto simp: pa_push2_def split: sum.splits dest: maybegrow_error)

lemma pa_push2_ok:
  assumes "2 * int (length (snd a)) + 2 < 2 ^ 28"
  shows "\<exists>m'. pa_push2 a x y = Inr (m', snd a @ [(x, y)])"
proof -
  from maybegrow_push [of "2 * int (length (snd a))" "fst a"] assms
  obtain m1 where 1: "pa___maybegrow (fst a) (2 * int (length (snd a))) 1 4 = Inr (Some m1)"
    by auto
  from maybegrow_push [of "2 * int (length (snd a)) + 1" "Some m1"] assms
  obtain m2 where
    2: "pa___maybegrow (Some m1) (2 * int (length (snd a)) + 1) 1 4 = Inr (Some m2)"
    by auto
  from 1 2 show ?thesis by (simp add: pa_push2_def)
qed

lemma push_pairs_sound:
  "push_pairs b act pairs = Inr pairs' \<Longrightarrow> snd pairs' = snd pairs @ map (mk_pair b) act"
proof (induction act arbitrary: pairs)
  case Nil
  then show ?case by simp
next
  case (Cons aj act)
  from Cons.prems obtain p1 where
    1: "pa_push2 pairs (PAR_MIN aj b) (PAR_MAX aj b) = Inr p1" and
    2: "push_pairs b act p1 = Inr pairs'"
    by (auto split: sum.splits)
  from pa_push2_sound [OF 1] Cons.IH [OF 2] show ?case by (simp add: mk_pair_def)
qed

lemma push_pairs_error: "push_pairs b act pairs = Inl e \<Longrightarrow> e = IntOverflow"
proof (induction act arbitrary: pairs)
  case Nil
  then show ?case by simp
next
  case (Cons aj act)
  then show ?case by (auto split: sum.splits dest: pa_push2_error)
qed

lemma push_pairs_ok:
  "2 * (int (length (snd pairs)) + int (length act)) < 2 ^ 28 \<Longrightarrow>
     \<exists>m'. push_pairs b act pairs = Inr (m', snd pairs @ map (mk_pair b) act)"
proof (induction act arbitrary: pairs)
  case Nil
  show ?case by (cases pairs) simp
next
  case (Cons aj act)
  from pa_push2_ok [of pairs "PAR_MIN aj b" "PAR_MAX aj b"] Cons.prems
  obtain m1 where
    1: "pa_push2 pairs (PAR_MIN aj b) (PAR_MAX aj b)
          = Inr (m1, snd pairs @ [(PAR_MIN aj b, PAR_MAX aj b)])"
    by auto
  from Cons.IH [of "(m1, snd pairs @ [(PAR_MIN aj b, PAR_MAX aj b)])"] Cons.prems
  obtain m' where
    "push_pairs b act (m1, snd pairs @ [(PAR_MIN aj b, PAR_MAX aj b)])
       = Inr (m', (snd pairs @ [(PAR_MIN aj b, PAR_MAX aj b)]) @ map (mk_pair b) act)"
    by auto
  with 1 show ?case by (simp add: mk_pair_def)
qed

lemma sweep_event_sound:
  assumes "sweep_event axis e (active, pairs) = Inr (active', pairs')"
  shows "plain_event axis e (snd active, snd pairs) = Inr (snd active', snd pairs')"
proof (cases "(e - int axis) smod 4 = 0")
  case True
  from assms True obtain p1 where
    1: "push_pairs (e sdiv 4) (snd active) pairs = Inr p1" and
    2: "pa_push active (e sdiv 4) = Inr active'" and 3: "pairs' = p1"
    by (auto simp: sweep_event_def Let_def split: sum.splits)
  from push_pairs_sound [OF 1] pa_push_sound [OF 2] 3 True show ?thesis
    by (simp add: plain_event_def Let_def mk_pair_def [abs_def])
next
  case False
  with assms show ?thesis
    by (auto simp: sweep_event_def plain_event_def Let_def split: sum.splits)
qed

lemma sweep_event_error:
  assumes "sweep_event axis e (active, pairs) = Inl err"
  shows "err = IntOverflow \<or> plain_event axis e (snd active, snd pairs) = Inl err"
proof (cases "(e - int axis) smod 4 = 0")
  case True
  with assms have "err = IntOverflow"
    by (auto simp: sweep_event_def Let_def split: sum.splits
        dest: push_pairs_error pa_push_error)
  then show ?thesis by simp
next
  case False
  with assms show ?thesis
    by (auto simp: sweep_event_def plain_event_def Let_def split: sum.splits)
qed

lemma sweep_sound:
  "sweep axis evs (active, pairs) = Inr (active', pairs') \<Longrightarrow>
     plain_sweep axis evs (snd active, snd pairs) = Inr (snd active', snd pairs')"
proof (induction evs arbitrary: active pairs)
  case Nil
  then show ?case by simp
next
  case (Cons e evs)
  from Cons.prems obtain a1 p1 where
    1: "sweep_event axis e (active, pairs) = Inr (a1, p1)" and
    2: "sweep axis evs (a1, p1) = Inr (active', pairs')"
    by (auto split: sum.splits)
  from sweep_event_sound [OF 1] Cons.IH [OF 2] show ?case by simp
qed

lemma sweep_error:
  "sweep axis evs (active, pairs) = Inl err \<Longrightarrow>
     err = IntOverflow \<or> plain_sweep axis evs (snd active, snd pairs) = Inl err"
proof (induction evs arbitrary: active pairs)
  case Nil
  then show ?case by simp
next
  case (Cons e evs)
  show ?case
  proof (cases "sweep_event axis e (active, pairs)")
    case (Inl x)
    with Cons.prems have "x = err" by simp
    with sweep_event_error [OF Inl] show ?thesis by auto
  next
    case (Inr st)
    obtain a1 p1 where st: "st = (a1, p1)" by (cases st)
    from Cons.prems Inr st have "sweep axis evs (a1, p1) = Inl err" by simp
    from Cons.IH [OF this] sweep_event_sound [of axis e active pairs a1 p1] Inr st
    show ?thesis by auto
  qed
qed

lemma plain_event_length:
  assumes "plain_event axis e (act, prs) = Inr (act', prs')"
  shows "length act' \<le> length act + 1 \<and> length prs \<le> length prs'"
proof (cases "(e - int axis) smod 4 = 0")
  case True
  with assms show ?thesis by (auto simp: plain_event_def Let_def)
next
  case False
  with assms obtain r where "par_sprune__remove act (e sdiv 4) = Inr r" "act' = r" "prs' = prs"
    by (auto simp: plain_event_def Let_def split: sum.splits)
  with par_sprune__remove_split [of act "e sdiv 4" r] show ?thesis by auto
qed

lemma plain_sweep_length:
  "plain_sweep axis evs (act, prs) = Inr (act', prs') \<Longrightarrow> length prs \<le> length prs'"
proof (induction evs arbitrary: act prs)
  case Nil
  then show ?case by simp
next
  case (Cons e evs)
  from Cons.prems obtain a1 p1 where
    1: "plain_event axis e (act, prs) = Inr (a1, p1)" and
    2: "plain_sweep axis evs (a1, p1) = Inr (act', prs')"
    by (auto split: sum.splits)
  from plain_event_length [OF 1] Cons.IH [OF 2] show ?case by simp
qed

lemma sweep_event_ok:
  assumes "plain_event axis e (snd active, snd pairs) = Inr (act', prs')"
    and "int (length act') < 2 ^ 28" and "2 * int (length prs') < 2 ^ 28"
  shows "\<exists>am pm. sweep_event axis e (active, pairs) = Inr ((am, act'), (pm, prs'))"
proof (cases "(e - int axis) smod 4 = 0")
  case True
  with assms(1) have a: "act' = snd active @ [e sdiv 4]"
    and p: "prs' = snd pairs @ map (mk_pair (e sdiv 4)) (snd active)"
    by (simp_all add: plain_event_def Let_def mk_pair_def [abs_def])
  from push_pairs_ok [of pairs "snd active" "e sdiv 4"] assms(3) p
  obtain pm where 1: "push_pairs (e sdiv 4) (snd active) pairs = Inr (pm, prs')" by auto
  from pa_push_ok [of active "e sdiv 4"] assms(2) a
  obtain am where 2: "pa_push active (e sdiv 4) = Inr (am, act')" by auto
  from 1 2 True show ?thesis by (simp add: sweep_event_def Let_def)
next
  case False
  with assms(1) have "par_sprune__remove (snd active) (e sdiv 4) = Inr act'" "prs' = snd pairs"
    by (auto simp: plain_event_def Let_def split: sum.splits)
  with False have "sweep_event axis e (active, pairs) = Inr ((fst active, act'), (fst pairs, prs'))"
    by (simp add: sweep_event_def Let_def)
  then show ?thesis by blast
qed

lemma sweep_ok:
  "plain_sweep axis evs (snd active, snd pairs) = Inr (act', prs') \<Longrightarrow>
   int (length (snd active)) + int (length evs) < 2 ^ 28 \<Longrightarrow>
   2 * int (length prs') < 2 ^ 28 \<Longrightarrow>
     \<exists>am pm. sweep axis evs (active, pairs) = Inr ((am, act'), (pm, prs'))"
proof (induction evs arbitrary: active pairs)
  case Nil
  then show ?case by (cases active; cases pairs) simp
next
  case (Cons e evs)
  from Cons.prems(1) obtain a1 p1 where
    1: "plain_event axis e (snd active, snd pairs) = Inr (a1, p1)" and
    2: "plain_sweep axis evs (a1, p1) = Inr (act', prs')"
    by (auto split: sum.splits)
  from plain_event_length [OF 1] have l: "length a1 \<le> length (snd active) + 1" by simp
  from plain_sweep_length [OF 2] have lp: "length p1 \<le> length prs'" .
  from sweep_event_ok [OF 1] l lp Cons.prems(2,3)
  obtain am pm where 3: "sweep_event axis e (active, pairs) = Inr ((am, a1), (pm, p1))"
    by auto
  from Cons.IH [of "(am, a1)" "(pm, p1)"] 2 l Cons.prems(2,3)
  obtain am' pm' where "sweep axis evs ((am, a1), (pm, p1)) = Inr ((am', act'), (pm', prs'))"
    by auto
  with 3 show ?case by simp
qed

lemma collect_sound:
  "collect p1 keys found = Inr found' \<Longrightarrow>
     snd found' = snd found @ filter (\<lambda>key. bsearch par__cmpfind key p1) keys"
proof (induction keys arbitrary: found)
  case Nil
  then show ?case by simp
next
  case (Cons key keys)
  show ?case
  proof (cases "bsearch par__cmpfind key p1")
    case True
    with Cons.prems obtain f1 where
      1: "pa_push2 found (fst key) (snd key) = Inr f1" and 2: "collect p1 keys f1 = Inr found'"
      by (auto split: sum.splits)
    from pa_push2_sound [OF 1] Cons.IH [OF 2] True show ?thesis by simp
  next
    case False
    with Cons.prems Cons.IH [of found] show ?thesis by simp
  qed
qed

lemma collect_error: "collect p1 keys found = Inl e \<Longrightarrow> e = IntOverflow"
proof (induction keys arbitrary: found)
  case Nil
  then show ?case by simp
next
  case (Cons key keys)
  then show ?case by (auto split: sum.splits if_splits dest: pa_push2_error)
qed

lemma collect_ok:
  "2 * (int (length (snd found)) + int (length keys)) < 2 ^ 28 \<Longrightarrow>
     \<exists>m'. collect p1 keys found
       = Inr (m', snd found @ filter (\<lambda>key. bsearch par__cmpfind key p1) keys)"
proof (induction keys arbitrary: found)
  case Nil
  show ?case by (cases found) simp
next
  case (Cons key keys)
  show ?case
  proof (cases "bsearch par__cmpfind key p1")
    case True
    from pa_push2_ok [of found "fst key" "snd key"] Cons.prems
    obtain m1 where 1: "pa_push2 found (fst key) (snd key) = Inr (m1, snd found @ [key])"
      by auto
    from Cons.IH [of "(m1, snd found @ [key])"] Cons.prems
    obtain m' where "collect p1 keys (m1, snd found @ [key])
        = Inr (m', (snd found @ [key]) @ filter (\<lambda>key. bsearch par__cmpfind key p1) keys)"
      by auto
    with 1 True show ?thesis by simp
  next
    case False
    from Cons.IH [of found] Cons.prems
    obtain m' where "collect p1 keys found
        = Inr (m', snd found @ filter (\<lambda>key. bsearch par__cmpfind key p1) keys)"
      by auto
    with False show ?thesis by simp
  qed
qed

subsection \<open>Every sweep of distinct events gives canonical pairs\<close>

text \<open>
  Whatever the order of the events, as long as no event occurs twice: a box enters the active
  list at its min event only, so the active list has no duplicates, a pair is emitted at the
  later of the min events of its two boxes only, and its components differ.
\<close>

definition opened :: "int \<Rightarrow> nat \<Rightarrow> int list \<Rightarrow> int set" where
  "opened n axis pre = {b. 0 \<le> b \<and> b < n \<and> minE axis b \<in> set pre}"

lemma plain_sweep_canonical:
  "axis < 2 \<Longrightarrow> distinct evs \<Longrightarrow>
   set evs \<subseteq> minE axis ` {0..<n} \<union> maxE axis ` {0..<n} \<Longrightarrow>
   plain_sweep axis evs ([], []) = Inr (active, pairs) \<Longrightarrow>
     distinct active \<and> set active \<subseteq> opened n axis evs \<and> distinct pairs \<and>
     (\<forall>p\<in>set pairs. fst p < snd p \<and> fst p \<in> opened n axis evs \<and> snd p \<in> opened n axis evs)"
proof (induction evs arbitrary: active pairs rule: rev_induct)
  case Nil
  then show ?case by simp
next
  case (snoc e pre)
  note ax = snoc.prems(1)
  from snoc.prems(4) obtain act0 prs0 where
    sw: "plain_sweep axis pre ([], []) = Inr (act0, prs0)" and
    ev: "plain_event axis e (act0, prs0) = Inr (active, pairs)"
    by (auto simp: plain_sweep_append split: sum.splits)
  have dpre: "distinct pre" and epre: "e \<notin> set pre" using snoc.prems(2) by simp_all
  have spre: "set pre \<subseteq> minE axis ` {0..<n} \<union> maxE axis ` {0..<n}"
    using snoc.prems(3) by simp
  from snoc.IH [OF ax dpre spre sw] have
    da: "distinct act0" and sa: "set act0 \<subseteq> opened n axis pre" and dp: "distinct prs0" and
    pp: "\<forall>p\<in>set prs0. fst p < snd p \<and> fst p \<in> opened n axis pre \<and> snd p \<in> opened n axis pre"
    by simp_all
  have mono: "opened n axis pre \<subseteq> opened n axis (pre @ [e])"
    by (auto simp: opened_def)
  have "e \<in> minE axis ` {0..<n} \<union> maxE axis ` {0..<n}" using snoc.prems(3) by simp
  then consider b where "0 \<le> b" "b < n" "e = minE axis b"
    | b where "0 \<le> b" "b < n" "e = maxE axis b"
    by auto
  then show ?case
  proof cases
    case 1
    note b = 1(1,2)
    have nb: "b \<notin> opened n axis pre" using epre 1(3) by (simp add: opened_def)
    then have nba: "b \<notin> set act0" using sa by blast
    have bo: "b \<in> opened n axis (pre @ [e])" using b 1(3) by (simp add: opened_def)
    from ev plain_event_min [OF ax b(1), of act0 prs0] 1(3)
    have a: "active = act0 @ [b]" and p: "pairs = prs0 @ map (mk_pair b) act0"
      by (simp_all add: mk_pair_def [abs_def])
    have "distinct active" using a da nba by simp
    moreover have "set active \<subseteq> opened n axis (pre @ [e])"
      using a sa mono bo by auto
    moreover have "distinct pairs"
    proof -
      have "inj_on (mk_pair b) (set act0)"
        using mk_pair_inj [of b "set act0"] nba by simp
      then have "distinct (map (mk_pair b) act0)" using da by (simp add: distinct_map)
      moreover have "set prs0 \<inter> mk_pair b ` set act0 = {}"
      proof -
        have "mk_pair b aj \<notin> set prs0" if "aj \<in> set act0" for aj
        proof
          assume m: "mk_pair b aj \<in> set prs0"
          have "aj \<noteq> b" using that nba by auto
          from mk_pair_cases [OF this] pp m nb show False by auto
        qed
        then show ?thesis by auto
      qed
      ultimately show ?thesis using dp p by simp
    qed
    moreover have "fst q < snd q \<and> fst q \<in> opened n axis (pre @ [e])
        \<and> snd q \<in> opened n axis (pre @ [e])" if "q \<in> set pairs" for q
    proof -
      from that p consider "q \<in> set prs0" | aj where "aj \<in> set act0" "q = mk_pair b aj"
        by auto
      then show ?thesis
      proof cases
        case 1
        with pp mono show ?thesis by blast
      next
        case 2
        have "aj \<noteq> b" using 2(1) nba by auto
        moreover have "aj \<in> opened n axis (pre @ [e])" using 2(1) sa mono by blast
        ultimately show ?thesis using mk_pair_cases [of aj b] 2(2) bo by auto
      qed
    qed
    ultimately show ?thesis by blast
  next
    case 2
    from ev plain_event_max [OF ax 2(1), of act0 prs0] 2(3)
    have r: "par_sprune__remove act0 b = Inr active" and p: "pairs = prs0"
      by (auto split: sum.splits)
    from par_sprune__remove_split [OF r] obtain A B where
      "act0 = A @ b # B" "active = A @ B" by blast
    with da sa have "distinct active" "set active \<subseteq> opened n axis pre" by auto
    with mono p dp pp show ?thesis by blast
  qed
qed

subsection \<open>Away from NaN the comparator is the linear one\<close>

lemma par__cmpinds_ev_cmp:
  "aabbs ! nat a \<noteq> None \<Longrightarrow> aabbs ! nat b \<noteq> None \<Longrightarrow>
     par__cmpinds aabbs a b = ev_cmp aabbs a b"
  by (auto simp: par__cmpinds_def ev_cmp_def Let_def flt_gt_def flt_lt_def)

lemma par_qsort_no_nan:
  assumes "\<forall>a\<in>set xs. aabbs ! nat a \<noteq> None"
  shows "par_qsort (par__cmpinds aabbs) xs = par_qsort (ev_cmp aabbs) xs"
proof -
  have "agree_on (set xs) (par__cmpinds aabbs) (ev_cmp aabbs)"
    using assms by (simp add: agree_on_def par__cmpinds_ev_cmp)
  then show ?thesis by (rule par_qsort_cong) simp
qed

lemma insertion_loop_no_nan:
  assumes "\<forall>a\<in>set xs. aabbs ! nat a \<noteq> None"
  shows "insertion_loop (par__cmpinds aabbs) k xs = insertion_loop (ev_cmp aabbs) k xs"
proof -
  have "agree_on (set xs) (par__cmpinds aabbs) (ev_cmp aabbs)"
    using assms by (simp add: agree_on_def par__cmpinds_ev_cmp)
  then show ?thesis by (rule insertion_loop_cong) simp
qed

subsection \<open>Boxes, well-formed inputs and limits\<close>

text \<open>
  Box \<open>i\<close> occupies the cells \<open>4i .. 4i+3\<close>. An input is well formed when the array holds \<open>n\<close>
  boxes and every box has, on both axes, a minimum that is at most its maximum in the
  comparison of the source; no coordinate of a well-formed box is NaN.
\<close>

definition minX :: "'a list \<Rightarrow> nat \<Rightarrow> 'a" where "minX aabbs i = aabbs ! (4 * i)"
definition minY :: "'a list \<Rightarrow> nat \<Rightarrow> 'a" where "minY aabbs i = aabbs ! (4 * i + 1)"
definition maxX :: "'a list \<Rightarrow> nat \<Rightarrow> 'a" where "maxX aabbs i = aabbs ! (4 * i + 2)"
definition maxY :: "'a list \<Rightarrow> nat \<Rightarrow> 'a" where "maxY aabbs i = aabbs ! (4 * i + 3)"

definition well_formed :: "'a::linorder flt list \<Rightarrow> nat \<Rightarrow> bool" where
  "well_formed aabbs n \<longleftrightarrow>
     4 * n \<le> length aabbs \<and>
     list_all (\<lambda>i. flt_le (minX aabbs i) (maxX aabbs i) \<and> flt_le (minY aabbs i) (maxY aabbs i))
       [0..<n]"

definition swept_overlap :: "'a::linorder flt list \<Rightarrow> nat \<Rightarrow> nat \<Rightarrow> bool" where
  "swept_overlap aabbs a b \<longleftrightarrow>
     flt_le (minX aabbs a) (maxX aabbs b) \<and> flt_lt (minX aabbs b) (maxX aabbs a) \<and>
     flt_le (minY aabbs a) (maxY aabbs b) \<and> flt_lt (minY aabbs b) (maxY aabbs a)"

definition closed_overlap :: "'a::linorder flt list \<Rightarrow> nat \<Rightarrow> nat \<Rightarrow> bool" where
  "closed_overlap aabbs a b \<longleftrightarrow>
     flt_le (minX aabbs a) (maxX aabbs b) \<and> flt_le (minX aabbs b) (maxX aabbs a) \<and>
     flt_le (minY aabbs a) (maxY aabbs b) \<and> flt_le (minY aabbs b) (maxY aabbs a)"

definition box_min :: "'a list \<Rightarrow> nat \<Rightarrow> nat \<Rightarrow> 'a" where
  "box_min aabbs axis i = aabbs ! (4 * i + axis)"

definition box_max :: "'a list \<Rightarrow> nat \<Rightarrow> nat \<Rightarrow> 'a" where
  "box_max aabbs axis i = aabbs ! (4 * i + 2 + axis)"

text \<open>
  The limits of the 32-bit arithmetic. On one axis the boxes \<open>a < b\<close> are a candidate pair when
  the minimum of \<open>a\<close> is at most the maximum of \<open>b\<close> and the minimum of \<open>b\<close> is below the maximum
  of \<open>a\<close>. Every candidate pair takes two cells of \<^verbatim>\<open>pairs[axis]\<close>, whose capacity doubles; the
  byte count \<^verbatim>\<open>itemsize * m\<close> of \<^verbatim>\<open>pa___growf\<close> no longer fits an \<^verbatim>\<open>int\<close> when the capacity reaches
  \<open>2^29\<close> cells, which happens at the cell number \<open>2^28\<close>. The count 1 is excluded as well: its flags
  buffer of \<open>2\<close> one-byte cells is allocated with \<open>2 div 4 = 0\<close> \<^verbatim>\<open>int\<close>s of room.
\<close>

definition axis_overlap :: "'a::linorder flt list \<Rightarrow> nat \<Rightarrow> nat \<Rightarrow> nat \<Rightarrow> bool" where
  "axis_overlap aabbs axis a b \<longleftrightarrow>
     flt_le (box_min aabbs axis a) (box_max aabbs axis b) \<and>
     flt_lt (box_min aabbs axis b) (box_max aabbs axis a)"

definition candidate_count :: "'a::linorder flt list \<Rightarrow> nat \<Rightarrow> nat \<Rightarrow> nat" where
  "candidate_count aabbs n axis =
     length (filter (\<lambda>p. fst p < snd p \<and> axis_overlap aabbs axis (fst p) (snd p))
       (List.product [0..<n] [0..<n]))"

definition within_limits :: "'a::linorder flt list \<Rightarrow> nat \<Rightarrow> bool" where
  "within_limits aabbs n \<longleftrightarrow>
     n \<noteq> 1 \<and> n < 2 ^ 27 \<and>
     candidate_count aabbs n 0 < 2 ^ 27 \<and> candidate_count aabbs n 1 < 2 ^ 27"

lemma flt_le_iff: "x \<noteq> None \<Longrightarrow> y \<noteq> None \<Longrightarrow> flt_le x y \<longleftrightarrow> x \<le> y"
  by (auto simp: flt_le_def)

lemma flt_lt_iff: "x \<noteq> None \<Longrightarrow> y \<noteq> None \<Longrightarrow> flt_lt x y \<longleftrightarrow> x < y"
  by (auto simp: flt_lt_def)

lemma flt_le_Some: "flt_le x y \<Longrightarrow> x \<noteq> None \<and> y \<noteq> None \<and> x \<le> y"
  by (auto simp: flt_le_def split: option.splits)

lemma nat_minE: "0 \<le> b \<Longrightarrow> aabbs ! nat (minE axis b) = box_min aabbs axis (nat b)"
  by (simp add: minE_def box_min_def nat_add_distrib nat_mult_distrib mult.commute)

lemma nat_maxE: "0 \<le> b \<Longrightarrow> aabbs ! nat (maxE axis b) = box_max aabbs axis (nat b)"
  by (simp add: maxE_def box_max_def nat_add_distrib nat_mult_distrib mult.commute)

lemma ev_lt_min_max_same:
  "0 \<le> b \<Longrightarrow> ev_lt aabbs (minE axis b) (maxE axis b) \<longleftrightarrow>
     box_min aabbs axis (nat b) \<le> box_max aabbs axis (nat b)"
  by (auto simp: ev_lt_def nat_minE nat_maxE) (simp_all add: minE_def maxE_def)

lemma ev_lt_min_max_up:
  "0 \<le> a \<Longrightarrow> a < b \<Longrightarrow> ev_lt aabbs (minE axis a) (maxE axis b) \<longleftrightarrow>
     box_min aabbs axis (nat a) \<le> box_max aabbs axis (nat b)"
  by (auto simp: ev_lt_def nat_minE nat_maxE) (simp_all add: minE_def maxE_def)

lemma ev_lt_min_max_down:
  "0 \<le> a \<Longrightarrow> a < b \<Longrightarrow> ev_lt aabbs (minE axis b) (maxE axis a) \<longleftrightarrow>
     box_min aabbs axis (nat b) < box_max aabbs axis (nat a)"
  by (auto simp: ev_lt_def nat_minE nat_maxE) (simp_all add: minE_def maxE_def)

definition axis_pairs :: "'a::linorder list \<Rightarrow> nat \<Rightarrow> nat \<Rightarrow> (int \<times> int) set" where
  "axis_pairs aabbs n axis =
     {(a, b). 0 \<le> a \<and> a < b \<and> b < int n \<and>
        box_min aabbs axis (nat a) \<le> box_max aabbs axis (nat b) \<and>
        box_min aabbs axis (nat b) < box_max aabbs axis (nat a)}"

lemma cand_all:
  assumes "set evs = minE axis ` {0..<int n} \<union> maxE axis ` {0..<int n}"
  shows "cand aabbs (int n) axis evs = axis_pairs aabbs n axis"
proof -
  have m: "minE axis a \<in> set evs" if "0 \<le> a" "a < int n" for a
    using assms that by auto
  show ?thesis
    unfolding cand_def axis_pairs_def
    by (auto simp: m ev_lt_min_max_up ev_lt_min_max_down)
qed

lemma well_formed_box:
  assumes "well_formed aabbs n" "axis < 2" "i < n"
  shows "box_min aabbs axis i \<noteq> None" "box_max aabbs axis i \<noteq> None"
    "box_min aabbs axis i \<le> box_max aabbs axis i"
proof -
  from assms(1,3) have "flt_le (minX aabbs i) (maxX aabbs i) \<and> flt_le (minY aabbs i) (maxY aabbs i)"
    by (simp add: well_formed_def list_all_iff)
  moreover from assms(2) have "axis = 0 \<or> axis = 1" by auto
  ultimately have "flt_le (box_min aabbs axis i) (box_max aabbs axis i)"
    by (auto simp: box_min_def box_max_def minX_def maxX_def minY_def maxY_def numeral_3_eq_3)
  from flt_le_Some [OF this]
  show "box_min aabbs axis i \<noteq> None" "box_max aabbs axis i \<noteq> None"
    "box_min aabbs axis i \<le> box_max aabbs axis i"
    by simp_all
qed

lemma well_formed_no_nan:
  assumes wf: "well_formed aabbs n" and ax: "axis < 2"
  shows "\<forall>a\<in>set (init_indices (int n) axis). aabbs ! nat a \<noteq> None"
proof
  fix a
  assume "a \<in> set (init_indices (int n) axis)"
  then consider b where "0 \<le> b" "b < int n" "a = minE axis b"
    | b where "0 \<le> b" "b < int n" "a = maxE axis b"
    by (auto simp: set_init_indices_nat)
  then show "aabbs ! nat a \<noteq> None"
  proof cases
    case 1
    then show ?thesis using well_formed_box(1) [OF wf ax, of "nat b"] by (simp add: nat_minE)
  next
    case 2
    then show ?thesis using well_formed_box(2) [OF wf ax, of "nat b"] by (simp add: nat_maxE)
  qed
qed

definition sorted_events :: "'a::linorder flt list \<Rightarrow> nat \<Rightarrow> nat \<Rightarrow> int list" where
  "sorted_events aabbs n axis = par_qsort (par__cmpinds aabbs) (init_indices (int n) axis)"

lemma sorted_events_perm:
  "mset (sorted_events aabbs n axis) = mset (init_indices (int n) axis)"
  by (simp add: sorted_events_def mset_par_qsort)

lemma sorted_events_set:
  "set (sorted_events aabbs n axis) = minE axis ` {0..<int n} \<union> maxE axis ` {0..<int n}"
  using mset_eq_setD [OF sorted_events_perm [of aabbs n axis]]
  by (simp add: set_init_indices_nat)

lemma sorted_events_distinct: "distinct (sorted_events aabbs n axis)"
  using sorted_events_perm [of aabbs n axis] distinct_init_indices_nat [of n axis]
  by (metis mset_eq_imp_distinct_iff)

lemma sorted_events_length: "length (sorted_events aabbs n axis) = 2 * n"
  using mset_eq_length [OF sorted_events_perm [of aabbs n axis]]
  by (simp add: length_init_indices_nat)

lemma sweep_ctx_sorted:
  assumes wf: "well_formed aabbs n" and ax: "axis < 2"
  shows "sweep_ctx aabbs (int n) axis (sorted_events aabbs n axis)"
proof -
  let ?evs = "sorted_events aabbs n axis"
  have e: "?evs = par_qsort (ev_cmp aabbs) (init_indices (int n) axis)"
    unfolding sorted_events_def by (rule par_qsort_no_nan [OF well_formed_no_nan [OF wf ax]])
  from par_qsort_cmpinds [OF distinct_init_indices_nat, of aabbs n axis] e
  have s: "sorted_wrt (ev_lt aabbs) ?evs" by simp
  have "ev_lt aabbs (minE axis b) (maxE axis b)" if "0 \<le> b" "b < int n" for b
    using well_formed_box(3) [OF wf ax, of "nat b"] that by (simp add: ev_lt_min_max_same)
  with s sorted_events_set [of aabbs n axis] ax show ?thesis by (simp add: sweep_ctx_def)
qed

lemma plain_sweep_well_formed:
  assumes wf: "well_formed aabbs n" and ax: "axis < 2"
  shows "\<exists>active pairs. plain_sweep axis (sorted_events aabbs n axis) ([], []) = Inr (active, pairs)
      \<and> distinct pairs \<and> set pairs = axis_pairs aabbs n axis"
proof -
  let ?evs = "sorted_events aabbs n axis"
  have c: "sweep_ctx aabbs (int n) axis (?evs @ [])"
    using sweep_ctx_sorted [OF wf ax] by simp
  from sweep_prefix [OF c] obtain active pairs where
    sw: "plain_sweep axis ?evs ([], []) = Inr (active, pairs)" and
    dp: "distinct pairs" and sp: "set pairs = cand aabbs (int n) axis ?evs"
    by blast
  from cand_all [OF sorted_events_set] sp have "set pairs = axis_pairs aabbs n axis" by simp
  with sw dp show ?thesis by blast
qed

lemma swept_overlap_axis_pairs:
  assumes wf: "well_formed aabbs n"
  shows "(a, b) \<in> axis_pairs aabbs n 0 \<inter> axis_pairs aabbs n 1 \<longleftrightarrow>
     0 \<le> a \<and> a < b \<and> b < int n \<and> swept_overlap aabbs (nat a) (nat b)"
proof (cases "0 \<le> a \<and> a < b \<and> b < int n")
  case False
  then show ?thesis by (auto simp: axis_pairs_def)
next
  case True
  then have l: "nat a < n" "nat b < n" by auto
  note nn = well_formed_box(1,2) [OF wf _ l(1)] well_formed_box(1,2) [OF wf _ l(2)]
  have x: "flt_le (minX aabbs (nat a)) (maxX aabbs (nat b))
        \<longleftrightarrow> box_min aabbs 0 (nat a) \<le> box_max aabbs 0 (nat b)"
      "flt_lt (minX aabbs (nat b)) (maxX aabbs (nat a))
        \<longleftrightarrow> box_min aabbs 0 (nat b) < box_max aabbs 0 (nat a)"
    using nn [of 0] by (simp_all add: flt_le_iff flt_lt_iff box_min_def box_max_def minX_def maxX_def)
  have y: "flt_le (minY aabbs (nat a)) (maxY aabbs (nat b))
        \<longleftrightarrow> box_min aabbs 1 (nat a) \<le> box_max aabbs 1 (nat b)"
      "flt_lt (minY aabbs (nat b)) (maxY aabbs (nat a))
        \<longleftrightarrow> box_min aabbs 1 (nat b) < box_max aabbs 1 (nat a)"
    using nn [of 1]
    by (simp_all add: flt_le_iff flt_lt_iff box_min_def box_max_def minY_def maxY_def numeral_3_eq_3)
  show ?thesis using True by (simp add: axis_pairs_def swept_overlap_def x y)
qed

lemma card_axis_pairs:
  assumes wf: "well_formed aabbs n" and ax: "axis < 2"
  shows "card (axis_pairs aabbs n axis) = candidate_count aabbs n axis"
proof -
  define L where "L = filter (\<lambda>p. fst p < snd p \<and> axis_overlap aabbs axis (fst p) (snd p))
       (List.product [0..<n] [0..<n])"
  define f where "f = (\<lambda>p :: nat \<times> nat. (int (fst p), int (snd p)))"
  have d: "distinct L" by (simp add: L_def distinct_product)
  have inj: "inj_on f (set L)" by (auto simp: inj_on_def f_def prod_eq_iff)
  have ov: "axis_overlap aabbs axis i j \<longleftrightarrow>
      box_min aabbs axis i \<le> box_max aabbs axis j \<and> box_min aabbs axis j < box_max aabbs axis i"
    if "i < n" "j < n" for i j
    using well_formed_box(1,2) [OF wf ax that(1)] well_formed_box(1,2) [OF wf ax that(2)]
    by (simp add: axis_overlap_def flt_le_iff flt_lt_iff)
  have "f ` set L = axis_pairs aabbs n axis"
  proof (intro set_eqI iffI)
    fix q
    assume "q \<in> f ` set L"
    then obtain i j where "i < n" "j < n" "i < j" "axis_overlap aabbs axis i j" "q = (int i, int j)"
      by (auto simp: L_def f_def)
    with ov [of i j] show "q \<in> axis_pairs aabbs n axis" by (simp add: axis_pairs_def)
  next
    fix q
    assume q: "q \<in> axis_pairs aabbs n axis"
    obtain a b where ab: "q = (a, b)" by (cases q)
    from q ab have h: "0 \<le> a" "a < b" "b < int n"
      "box_min aabbs axis (nat a) \<le> box_max aabbs axis (nat b)"
      "box_min aabbs axis (nat b) < box_max aabbs axis (nat a)"
      by (simp_all add: axis_pairs_def)
    then have l: "nat a < n" "nat b < n" "nat a < nat b" by auto
    have "(nat a, nat b) \<in> set L" using l ov [OF l(1,2)] h by (simp add: L_def)
    moreover have "f (nat a, nat b) = q" using h ab by (simp add: f_def)
    ultimately show "q \<in> f ` set L" by (metis imageI)
  qed
  then have "card (axis_pairs aabbs n axis) = card (f ` set L)" by simp
  also have "\<dots> = card (set L)" by (rule card_image [OF inj])
  also have "\<dots> = length L" by (rule distinct_card [OF d])
  finally show ?thesis by (simp add: candidate_count_def L_def)
qed

subsection \<open>The outcomes of \<open>par_sprune_overlap\<close>\<close>

text \<open>
  The intersection without the capacity header: the pairs of the first sorted sequence that occur
  in the second.
\<close>

definition plain_intersect :: "(int \<times> int) list \<Rightarrow> (int \<times> int) list \<Rightarrow> (int \<times> int) list" where
  "plain_intersect pairs0 pairs1 =
     filter (\<lambda>key. bsearch par__cmpfind key (par_qsort par__cmppairs pairs1))
       (par_qsort par__cmppairs pairs0)"

lemma bsearch_cmpfind: "bsearch par__cmpfind key base \<longleftrightarrow> key \<in> set base"
  by (auto simp: bsearch_def list_ex_iff par__cmpfind_def prod_eq_iff split: if_splits)

lemma plain_intersect_result:
  assumes "distinct pairs0"
  shows "sorted_wrt pair_lt (plain_intersect pairs0 pairs1)"
    "set (plain_intersect pairs0 pairs1) = set pairs0 \<inter> set pairs1"
proof -
  let ?p0 = "par_qsort par__cmppairs pairs0" and ?p1 = "par_qsort par__cmppairs pairs1"
  from par_qsort_cmppairs [OF assms]
  have s0: "sorted_wrt pair_lt ?p0" and m0: "set ?p0 = set pairs0"
    by (auto dest: mset_eq_setD)
  have m1: "set ?p1 = set pairs1"
    using mset_eq_setD [OF mset_par_qsort [of par__cmppairs pairs1]] .
  show "sorted_wrt pair_lt (plain_intersect pairs0 pairs1)"
    using s0 by (simp add: plain_intersect_def sorted_wrt_filter)
  show "set (plain_intersect pairs0 pairs1) = set pairs0 \<inter> set pairs1"
    using m0 m1 by (auto simp: plain_intersect_def bsearch_cmpfind)
qed

lemma pair_lt_irrefl: "\<not> pair_lt p p"
  by (simp add: pair_lt_def)

lemma sorted_wrt_pair_lt_distinct: "sorted_wrt pair_lt ps \<Longrightarrow> distinct ps"
  by (induction ps) (auto simp: pair_lt_irrefl)

lemma length_plain_intersect: "length (plain_intersect pairs0 pairs1) \<le> length pairs0"
proof -
  have "length (plain_intersect pairs0 pairs1) \<le> length (par_qsort par__cmppairs pairs0)"
    by (simp add: plain_intersect_def)
  also have "\<dots> = length pairs0"
    by (rule mset_eq_length [OF mset_par_qsort])
  finally show ?thesis .
qed

lemma intersect_pairs_sound:
  "intersect_pairs pairs0 pairs1 m = Inr found \<Longrightarrow> snd found = plain_intersect pairs0 pairs1"
  by (auto simp: intersect_pairs_def plain_intersect_def Let_def dest: collect_sound)

lemma intersect_pairs_error: "intersect_pairs pairs0 pairs1 m = Inl e \<Longrightarrow> e = IntOverflow"
  by (auto simp: intersect_pairs_def Let_def dest: collect_error)

lemma intersect_pairs_ok:
  assumes "length pairs0 < 2 ^ 27"
  shows "\<exists>m'. intersect_pairs pairs0 pairs1 m = Inr (m', plain_intersect pairs0 pairs1)"
proof -
  have "length (par_qsort par__cmppairs pairs0) = length pairs0"
    by (rule mset_eq_length [OF mset_par_qsort])
  with assms have "2 * (int (length (snd (m, [] :: (int \<times> int) list)))
      + int (length (par_qsort par__cmppairs pairs0))) < 2 ^ 28"
    by simp
  from collect_ok [OF this, of "par_qsort par__cmppairs pairs1"]
  show ?thesis by (simp add: intersect_pairs_def plain_intersect_def Let_def)
qed

lemma init_indices_in_bounds:
  assumes "4 * n \<le> length aabbs" "axis < 2"
  shows "\<not> list_ex (\<lambda>a. int (length aabbs) \<le> a) (init_indices (int n) axis)"
proof -
  have "a < int (length aabbs)" if "a \<in> set (init_indices (int n) axis)" for a
    using that assms by (auto simp: set_init_indices_nat minE_def maxE_def)
  then have "\<not> int (length aabbs) \<le> a" if "a \<in> set (init_indices (int n) axis)" for a
    using that by (simp add: not_le)
  then show ?thesis unfolding list_ex_iff by blast
qed

lemma size_t_count:
  assumes "int n * 2 < 2 ^ 64"
  shows "size_t (int n * 2) = int (length (init_indices (int n) axis))"
  using assms by (simp add: size_t_def length_init_indices_nat)

lemma size_t_negative:
  assumes "naabbs < 0" and "int_ok (naabbs * 2)"
  shows "size_t (naabbs * 2) \<noteq> int (length (init_indices naabbs axis))"
proof -
  have "[0..naabbs - 1] = []" using assms(1) by simp
  then have l: "length (init_indices naabbs axis) = 0" by (simp add: init_indices_def)
  have b: "- (2 ^ 31) \<le> naabbs * 2" using assms(2) by (simp add: int_ok_def)
  have "(naabbs * 2 + 2 ^ 64) mod 2 ^ 64 = naabbs * 2 + 2 ^ 64"
    using assms(1) b by (intro mod_pos_pos_trivial) simp_all
  then have "(naabbs * 2) mod 2 ^ 64 = naabbs * 2 + 2 ^ 64" by simp
  then have "size_t (naabbs * 2) \<noteq> 0" using b by (simp add: size_t_def)
  with l show ?thesis by simp
qed

lemma axis_sweep_Inr:
  assumes r: "axis_sweep aabbs naabbs axis (init_indices naabbs axis) active
      = Inr (srt, active', pairs)"
    and ok: "int_ok (naabbs * 2)"
  shows "0 \<le> naabbs" "srt = sorted_events aabbs (nat naabbs) axis"
    "\<exists>act. plain_sweep axis srt ([], []) = Inr (act, pairs)"
    "\<not> list_ex (\<lambda>a. int (length aabbs) \<le> a) (init_indices naabbs axis)"
proof -
  from r have g: "size_t (naabbs * 2) = int (length (init_indices naabbs axis))"
    and b: "\<not> list_ex (\<lambda>a. int (length aabbs) \<le> a) (init_indices naabbs axis)"
    by (auto simp: axis_sweep_def split: if_splits)
  show n: "0 \<le> naabbs" using g size_t_negative [OF _ ok, of axis] by (cases "naabbs < 0") auto
  from r g b obtain a1 p1 where
    s: "srt = par_qsort (par__cmpinds aabbs) (init_indices naabbs axis)" and
    sw: "sweep axis srt ((fst active, []), (None, [])) = Inr (a1, p1)" and p: "pairs = snd p1"
    by (auto simp: axis_sweep_def Let_def split: sum.splits)
  show "srt = sorted_events aabbs (nat naabbs) axis"
    using s n by (simp add: sorted_events_def)
  from sweep_sound [OF sw] p show "\<exists>act. plain_sweep axis srt ([], []) = Inr (act, pairs)"
    by auto
  show "\<not> list_ex (\<lambda>a. int (length aabbs) \<le> a) (init_indices naabbs axis)" by (rule b)
qed

lemma axis_sweep_error:
  assumes "axis_sweep aabbs naabbs axis (init_indices naabbs axis) active = Inl e"
  shows "e = OutOfBounds \<or> e = IntOverflow \<or>
    plain_sweep axis (par_qsort (par__cmpinds aabbs) (init_indices naabbs axis)) ([], []) = Inl e"
proof (cases "size_t (naabbs * 2) \<noteq> int (length (init_indices naabbs axis)) \<or>
         list_ex (\<lambda>a. int (length aabbs) \<le> a) (init_indices naabbs axis)")
  case True
  with assms show ?thesis by (auto simp: axis_sweep_def)
next
  case False
  let ?evs = "par_qsort (par__cmpinds aabbs) (init_indices naabbs axis)"
  from assms False have "sweep axis ?evs ((fst active, []), (None, [])) = Inl e"
    by (auto simp: axis_sweep_def Let_def split: sum.splits)
  from sweep_error [OF this] show ?thesis by auto
qed

lemma axis_sweep_ok:
  assumes wf: "well_formed aabbs n" and ax: "axis < 2" and n: "n < 2 ^ 27"
    and cc: "candidate_count aabbs n axis < 2 ^ 27"
  shows "\<exists>active' pairs. axis_sweep aabbs (int n) axis (init_indices (int n) axis) active
      = Inr (sorted_events aabbs n axis, active', pairs) \<and> length pairs < 2 ^ 27"
proof -
  let ?evs = "sorted_events aabbs n axis"
  from plain_sweep_well_formed [OF wf ax] obtain act pairs where
    sw: "plain_sweep axis ?evs ([], []) = Inr (act, pairs)" and
    dp: "distinct pairs" and sp: "set pairs = axis_pairs aabbs n axis"
    by blast
  have "length pairs = card (axis_pairs aabbs n axis)"
    using distinct_card [OF dp] sp by simp
  with card_axis_pairs [OF wf ax] cc have lp: "length pairs < 2 ^ 27" by simp
  have sw': "plain_sweep axis ?evs (snd (fst active, [] :: int list),
      snd (None :: nat option, [] :: (int \<times> int) list)) = Inr (act, pairs)"
    using sw by simp
  have l1: "int (length (snd (fst active, [] :: int list))) + int (length ?evs) < 2 ^ 28"
    using n by (simp add: sorted_events_length)
  have l2: "2 * int (length pairs) < 2 ^ 28" using lp by simp
  from sweep_ok [OF sw' l1 l2] obtain am pm where
    s: "sweep axis ?evs ((fst active, []), (None, [])) = Inr ((am, act), (pm, pairs))"
    by blast
  have b: "4 * n \<le> length aabbs" using wf by (simp add: well_formed_def)
  have "int n * 2 < 2 ^ 64" using n by simp
  from size_t_count [OF this, of axis] init_indices_in_bounds [OF b ax] s
  have "axis_sweep aabbs (int n) axis (init_indices (int n) axis) active
      = Inr (?evs, (am, act), pairs)"
    by (simp add: axis_sweep_def Let_def sorted_events_def)
  with lp show ?thesis by blast
qed

lemma pa_clear_add_ok:
  assumes "0 \<le> k" and "k < 2 ^ 28" and "itemsize = 1 \<or> itemsize = 4"
  shows "\<exists>m'. pa_clear_add m k itemsize = Inr (Some m') \<and> k \<le> int m'"
proof (cases m)
  case None
  have "int_ok (itemsize * k)" using assms by (auto simp: int_ok_def)
  with None assms(1,2) show ?thesis
    by (simp add: pa_clear_add_def pa___maybegrow_def pa___growf_def int_ok_def)
next
  case (Some m0)
  show ?thesis
  proof (cases "k \<ge> int m0")
    case True
    define m1 where "m1 = (if 2 * int m0 > k then 2 * int m0 else k)"
    have b: "k \<le> m1" "m1 \<le> 2 * k" "0 \<le> m1" using True assms(1) by (auto simp: m1_def)
    have "int_ok (2 * int m0)" "int_ok k" using True assms(1,2) by (simp_all add: int_ok_def)
    moreover have "int_ok (itemsize * m1)" using b assms(2,3) by (auto simp: int_ok_def)
    ultimately have "pa_clear_add m k itemsize = Inr (Some (nat m1))"
      using True Some
      by (simp add: pa_clear_add_def pa___maybegrow_def pa___growf_def Let_def m1_def)
    with b show ?thesis by simp
  next
    case False
    with Some show ?thesis by (simp add: pa_clear_add_def pa___maybegrow_def)
  qed
qed

lemma resize_buffers_error: "resize_buffers ctx naabbs = Inl e \<Longrightarrow> e = IntOverflow"
  by (auto simp: resize_buffers_def pa_clear_add_def split: sum.splits dest: maybegrow_error)

lemma resize_buffers_ok:
  assumes "0 \<le> naabbs" and "naabbs < 2 ^ 27"
  shows "\<exists>si m0 m1. resize_buffers ctx naabbs = Inr (si, (Some m0, Some m1)) \<and>
      naabbs * 2 \<le> int m0 \<and> naabbs * 2 \<le> int m1"
proof -
  have k: "0 \<le> naabbs * 2" "naabbs * 2 < 2 ^ 28" using assms by simp_all
  from pa_clear_add_ok [OF k, of 4 "fst (sorted_indices_m ctx)"] obtain s0 where
    1: "pa_clear_add (fst (sorted_indices_m ctx)) (naabbs * 2) 4 = Inr (Some s0)" by auto
  from pa_clear_add_ok [OF k, of 1 "fst (overlap_flags_m ctx)"] obtain m0 where
    2: "pa_clear_add (fst (overlap_flags_m ctx)) (naabbs * 2) 1 = Inr (Some m0)"
      "naabbs * 2 \<le> int m0" by auto
  from pa_clear_add_ok [OF k, of 4 "snd (sorted_indices_m ctx)"] obtain s1 where
    3: "pa_clear_add (snd (sorted_indices_m ctx)) (naabbs * 2) 4 = Inr (Some s1)" by auto
  from pa_clear_add_ok [OF k, of 1 "snd (overlap_flags_m ctx)"] obtain m1 where
    4: "pa_clear_add (snd (overlap_flags_m ctx)) (naabbs * 2) 1 = Inr (Some m1)"
      "naabbs * 2 \<le> int m1" by auto
  from 1 2 3 4 show ?thesis by (simp add: resize_buffers_def)
qed

lemma flags_room:
  assumes "0 \<le> naabbs" and "naabbs \<noteq> 1" and "naabbs * 2 \<le> int m"
  shows "naabbs \<le> pa_room (Some m) 1"
proof -
  have "naabbs \<le> 4 * (int m div 4)" using assms by presburger
  then show ?thesis by (simp add: pa_room_def)
qed

lemma init_loop_ok:
  assumes "0 \<le> naabbs" and "naabbs \<noteq> 1" and "naabbs < 2 ^ 27"
    and "naabbs * 2 \<le> int m0" and "naabbs * 2 \<le> int m1"
  shows "init_loop_error naabbs (Some m0, Some m1) = None"
  using flags_room [OF assms(1,2,4)] flags_room [OF assms(1,2,5)] assms(3)
  by (simp add: init_loop_error_def Let_def)

lemma init_loop_error_cases:
  "init_loop_error naabbs fl = Some e \<Longrightarrow> e = IntOverflow \<or> e = OutOfBounds"
  by (auto simp: init_loop_error_def Let_def split: if_splits)

text \<open>
  When \<open>par_sprune_overlap\<close> returns a context, the count is not negative, both sweeps of the
  lists have ended without error, and the context holds the sorted event orders and the
  intersection of the two candidate sequences.
\<close>

lemma par_sprune_overlap_Inr:
  assumes r: "par_sprune_overlap aabbs naabbs previous junk = Inr ctx"
  shows "\<exists>n act0 pairs0 act1 pairs1. naabbs = int n \<and>
      plain_sweep 0 (sorted_events aabbs n 0) ([], []) = Inr (act0, pairs0) \<and>
      plain_sweep 1 (sorted_events aabbs n 1) ([], []) = Inr (act1, pairs1) \<and>
      sorted_indices ctx = (sorted_events aabbs n 0, sorted_events aabbs n 1) \<and>
      collision_pairs ctx = plain_intersect pairs0 pairs1 \<and>
      ncollision_pairs ctx = int (length (collision_pairs ctx)) \<and>
      ctx_naabbs ctx = naabbs \<and> ctx_aabbs ctx = aabbs \<and>
      \<not> list_ex (\<lambda>a. int (length aabbs) \<le> a) (init_indices naabbs 0 @ init_indices naabbs 1)"
proof -
  from r have ok: "int_ok (naabbs * 2)"
    by (auto simp: par_sprune_overlap_def Let_def split: if_splits)
  from r ok obtain sorted0 active pairs0 sorted1 active' pairs1 m found where
    a0: "axis_sweep aabbs naabbs 0 (init_indices naabbs 0) (None, [])
          = Inr (sorted0, active, pairs0)" and
    a1: "axis_sweep aabbs naabbs 1 (init_indices naabbs 1) active
          = Inr (sorted1, active', pairs1)" and
    ip: "intersect_pairs pairs0 pairs1 m = Inr found" and
    c: "collision_pairs ctx = snd found" "ncollision_pairs ctx = int (length (snd found))"
      "sorted_indices ctx = (sorted0, sorted1)" "ctx_naabbs ctx = naabbs" "ctx_aabbs ctx = aabbs"
    by (auto simp: par_sprune_overlap_def Let_def split: sum.splits option.splits prod.splits)
  from axis_sweep_Inr [OF a0 ok] obtain act0 where
    n: "0 \<le> naabbs" and s0: "sorted0 = sorted_events aabbs (nat naabbs) 0" and
    p0: "plain_sweep 0 sorted0 ([], []) = Inr (act0, pairs0)" and
    b0: "\<not> list_ex (\<lambda>a. int (length aabbs) \<le> a) (init_indices naabbs 0)"
    by blast
  from axis_sweep_Inr [OF a1 ok] obtain act1 where
    s1: "sorted1 = sorted_events aabbs (nat naabbs) 1" and
    p1: "plain_sweep 1 sorted1 ([], []) = Inr (act1, pairs1)" and
    b1: "\<not> list_ex (\<lambda>a. int (length aabbs) \<le> a) (init_indices naabbs 1)"
    by blast
  have e: "naabbs = int (nat naabbs)" using n by simp
  have cp: "collision_pairs ctx = plain_intersect pairs0 pairs1"
    using intersect_pairs_sound [OF ip] c(1) by simp
  have nc: "ncollision_pairs ctx = int (length (collision_pairs ctx))" using c(1,2) by simp
  have bb: "\<not> list_ex (\<lambda>a. int (length aabbs) \<le> a)
      (init_indices naabbs 0 @ init_indices naabbs 1)"
    using b0 b1 by (auto simp: list_ex_iff)
  have q0: "plain_sweep 0 (sorted_events aabbs (nat naabbs) 0) ([], []) = Inr (act0, pairs0)"
    using p0 s0 by simp
  have q1: "plain_sweep 1 (sorted_events aabbs (nat naabbs) 1) ([], []) = Inr (act1, pairs1)"
    using p1 s1 by simp
  have si: "sorted_indices ctx
      = (sorted_events aabbs (nat naabbs) 0, sorted_events aabbs (nat naabbs) 1)"
    using c(3) s0 s1 by simp
  show ?thesis
    by (intro exI [of _ "nat naabbs"] exI [of _ act0] exI [of _ pairs0] exI [of _ act1]
        exI [of _ pairs1] conjI e q0 q1 si cp nc c(4) c(5) bb)
qed

lemma par_sprune_overlap_error:
  assumes r: "par_sprune_overlap aabbs naabbs previous junk = Inl e"
  shows "e = IntOverflow \<or> e = OutOfBounds \<or>
    (\<exists>axis<2. plain_sweep axis (par_qsort (par__cmpinds aabbs) (init_indices naabbs axis)) ([], [])
       = Inl e)"
proof -
  define ctx where "ctx = (case previous of None \<Rightarrow> calloc_context | Some c \<Rightarrow> c)
      \<lparr>ctx_aabbs := aabbs, ctx_naabbs := naabbs\<rparr>"
  show ?thesis
  proof (cases "int_ok (naabbs * 2)")
    case False
    with r show ?thesis by (simp add: par_sprune_overlap_def Let_def)
  next
    case ok: True
    show ?thesis
    proof (cases "resize_buffers ctx naabbs")
      case (Inl x)
      with r ok have "x = e" by (simp add: par_sprune_overlap_def Let_def ctx_def)
      with resize_buffers_error [OF Inl] show ?thesis by simp
    next
      case (Inr sf)
      obtain si fl where sf: "sf = (si, fl)" by (cases sf)
      show ?thesis
      proof (cases "init_loop_error naabbs fl")
        case (Some x)
        with r ok Inr sf have "x = e" by (simp add: par_sprune_overlap_def Let_def ctx_def)
        with init_loop_error_cases [OF Some] show ?thesis by auto
      next
        case None
        show ?thesis
        proof (cases "axis_sweep aabbs naabbs 0 (init_indices naabbs 0) (None, [])")
          case (Inl x)
          with r ok Inr sf None have "x = e"
            by (simp add: par_sprune_overlap_def Let_def ctx_def)
          with axis_sweep_error [OF Inl] show ?thesis by auto
        next
          case a0: (Inr t0)
          obtain sorted0 active pairs0 where t0: "t0 = (sorted0, active, pairs0)" by (cases t0)
          show ?thesis
          proof (cases "axis_sweep aabbs naabbs 1 (init_indices naabbs 1) active")
            case (Inl x)
            with r ok Inr sf None a0 t0 have "x = e"
              by (simp add: par_sprune_overlap_def Let_def ctx_def)
            with axis_sweep_error [OF Inl] show ?thesis by auto
          next
            case a1: (Inr t1)
            obtain sorted1 active' pairs1 where t1: "t1 = (sorted1, active', pairs1)"
              by (cases t1)
            from r ok Inr sf None a0 t0 a1 t1
            have "intersect_pairs pairs0 pairs1 (collision_pairs_m ctx) = Inl e"
              by (simp add: par_sprune_overlap_def Let_def ctx_def split: sum.splits)
            from intersect_pairs_error [OF this] show ?thesis by simp
          qed
        qed
      qed
    qed
  qed
qed

text \<open>A well-formed input within the limits gives a context.\<close>

lemma par_sprune_overlap_ok:
  assumes wf: "well_formed aabbs n" and lim: "within_limits aabbs n"
  shows "\<exists>ctx. par_sprune_overlap aabbs (int n) previous junk = Inr ctx"
proof -
  define ctx where "ctx = (case previous of None \<Rightarrow> calloc_context | Some c \<Rightarrow> c)
      \<lparr>ctx_aabbs := aabbs, ctx_naabbs := int n\<rparr>"
  from lim have n: "n < 2 ^ 27" and n1: "n \<noteq> 1" and
    c0: "candidate_count aabbs n 0 < 2 ^ 27" and c1: "candidate_count aabbs n 1 < 2 ^ 27"
    unfolding within_limits_def by blast+
  have ax: "(0 :: nat) < 2" "(1 :: nat) < 2" by simp_all
  have ni: "0 \<le> int n" "int n < 2 ^ 27" "int n \<noteq> 1" using n n1 by simp_all
  have ok: "int_ok (int n * 2)" using ni by (simp add: int_ok_def)
  from resize_buffers_ok [OF ni(1,2), of ctx] obtain si m0 m1 where
    rb: "resize_buffers ctx (int n) = Inr (si, (Some m0, Some m1))" and
    m: "int n * 2 \<le> int m0" "int n * 2 \<le> int m1"
    by blast
  have il: "init_loop_error (int n) (Some m0, Some m1) = None"
    by (rule init_loop_ok [OF ni(1,3,2) m])
  from axis_sweep_ok [OF wf ax(1) n c0] obtain active pairs0 where
    a0: "axis_sweep aabbs (int n) 0 (init_indices (int n) 0) (None, [])
          = Inr (sorted_events aabbs n 0, active, pairs0)" and l0: "length pairs0 < 2 ^ 27"
    by blast
  from axis_sweep_ok [OF wf ax(2) n c1] obtain active' pairs1 where
    a1: "axis_sweep aabbs (int n) 1 (init_indices (int n) 1) active
          = Inr (sorted_events aabbs n 1, active', pairs1)"
    by blast
  from intersect_pairs_ok [OF l0, of pairs1 "collision_pairs_m ctx"] obtain m' where
    ip: "intersect_pairs pairs0 pairs1 (collision_pairs_m ctx)
          = Inr (m', plain_intersect pairs0 pairs1)"
    by blast
  show ?thesis
    unfolding par_sprune_overlap_def Let_def
    using ok rb il a0 a1 ip by (simp add: ctx_def)
qed

lemma par_sprune_overlap_no_assert:
  assumes wf: "well_formed aabbs n"
  shows "par_sprune_overlap aabbs (int n) previous junk \<noteq> Inl AssertionFailed"
proof
  assume "par_sprune_overlap aabbs (int n) previous junk = Inl AssertionFailed"
  from par_sprune_overlap_error [OF this] obtain axis where ax: "axis < 2" and
    "plain_sweep axis (sorted_events aabbs n axis) ([], []) = Inl AssertionFailed"
    by (auto simp: sorted_events_def)
  with plain_sweep_well_formed [OF wf ax] show False by auto
qed

lemma overlap_independent:
  "map_sum id (\<lambda>c. (collision_pairs c, ncollision_pairs c))
      (par_sprune_overlap aabbs naabbs previous junk)
   = map_sum id (\<lambda>c. (collision_pairs c, ncollision_pairs c))
      (par_sprune_overlap aabbs naabbs previous junk')"
  by (simp add: par_sprune_overlap_def Let_def split: sum.splits prod.splits option.splits)

subsection \<open>Consequences for the collision pairs\<close>

lemma overlap_collision_pairs:
  assumes wf: "well_formed aabbs n"
    and r: "par_sprune_overlap aabbs (int n) previous junk = Inr ctx"
  shows "sorted_wrt pair_lt (collision_pairs ctx)"
    "set (collision_pairs ctx) = axis_pairs aabbs n 0 \<inter> axis_pairs aabbs n 1"
    "ncollision_pairs ctx = int (length (collision_pairs ctx))"
    "sorted_indices ctx = (sorted_events aabbs n 0, sorted_events aabbs n 1)"
proof -
  from par_sprune_overlap_Inr [OF r] obtain k act0 pairs0 act1 pairs1 where
    k: "int n = int k" and
    p0: "plain_sweep 0 (sorted_events aabbs k 0) ([], []) = Inr (act0, pairs0)" and
    p1: "plain_sweep 1 (sorted_events aabbs k 1) ([], []) = Inr (act1, pairs1)" and
    si: "sorted_indices ctx = (sorted_events aabbs k 0, sorted_events aabbs k 1)" and
    cp: "collision_pairs ctx = plain_intersect pairs0 pairs1" and
    nc: "ncollision_pairs ctx = int (length (collision_pairs ctx))"
    by blast
  from k have kn: "k = n" by simp
  have ax: "(0 :: nat) < 2" "(1 :: nat) < 2" by simp_all
  from plain_sweep_well_formed [OF wf ax(1)] p0 kn
  have d0: "distinct pairs0" and s0: "set pairs0 = axis_pairs aabbs n 0" by auto
  from plain_sweep_well_formed [OF wf ax(2)] p1 kn
  have s1: "set pairs1 = axis_pairs aabbs n 1" by auto
  show "sorted_wrt pair_lt (collision_pairs ctx)"
    using plain_intersect_result(1) [OF d0] cp by simp
  show "set (collision_pairs ctx) = axis_pairs aabbs n 0 \<inter> axis_pairs aabbs n 1"
    using plain_intersect_result(2) [OF d0] cp s0 s1 by simp
  show "ncollision_pairs ctx = int (length (collision_pairs ctx))" by (rule nc)
  show "sorted_indices ctx = (sorted_events aabbs n 0, sorted_events aabbs n 1)"
    using si kn by simp
qed

lemma overlap_canonical:
  assumes r: "par_sprune_overlap aabbs naabbs previous junk = Inr ctx"
  shows "sorted_wrt pair_lt (collision_pairs ctx)"
    "\<forall>p\<in>set (collision_pairs ctx). 0 \<le> fst p \<and> fst p < snd p \<and> snd p < naabbs"
proof -
  from par_sprune_overlap_Inr [OF r] obtain k act0 pairs0 act1 pairs1 where
    k: "naabbs = int k" and
    p0: "plain_sweep 0 (sorted_events aabbs k 0) ([], []) = Inr (act0, pairs0)" and
    cp: "collision_pairs ctx = plain_intersect pairs0 pairs1"
    by blast
  have ax: "(0 :: nat) < 2" by simp
  have st: "set (sorted_events aabbs k 0) \<subseteq> minE 0 ` {0..<int k} \<union> maxE 0 ` {0..<int k}"
    by (simp add: sorted_events_set)
  from plain_sweep_canonical [OF ax sorted_events_distinct st p0]
  have d0: "distinct pairs0" and
    c0: "\<forall>p\<in>set pairs0. fst p < snd p \<and> fst p \<in> opened (int k) 0 (sorted_events aabbs k 0)
        \<and> snd p \<in> opened (int k) 0 (sorted_events aabbs k 0)"
    by simp_all
  show "sorted_wrt pair_lt (collision_pairs ctx)"
    using plain_intersect_result(1) [OF d0] cp by simp
  have "set (collision_pairs ctx) \<subseteq> set pairs0"
    using plain_intersect_result(2) [OF d0] cp by simp
  with c0 k show "\<forall>p\<in>set (collision_pairs ctx). 0 \<le> fst p \<and> fst p < snd p \<and> snd p < naabbs"
    by (auto simp: opened_def)
qed





lemma resize_buffers_negative:
  assumes "naabbs < 0" and "int_ok (naabbs * 2)"
  shows "\<exists>sf. resize_buffers ctx naabbs = Inr sf"
proof -
  have a: "\<exists>m'. pa_clear_add m (naabbs * 2) itemsize = Inr m'" for m itemsize
    using assms
    by (cases m) (simp_all add: pa_clear_add_def pa___maybegrow_def pa___growf_def int_ok_def)
  from a [of "fst (sorted_indices_m ctx)" 4] obtain s0 where
    1: "pa_clear_add (fst (sorted_indices_m ctx)) (naabbs * 2) 4 = Inr s0" by blast
  from a [of "fst (overlap_flags_m ctx)" 1] obtain f0 where
    2: "pa_clear_add (fst (overlap_flags_m ctx)) (naabbs * 2) 1 = Inr f0" by blast
  from a [of "snd (sorted_indices_m ctx)" 4] obtain s1 where
    3: "pa_clear_add (snd (sorted_indices_m ctx)) (naabbs * 2) 4 = Inr s1" by blast
  from a [of "snd (overlap_flags_m ctx)" 1] obtain f1 where
    4: "pa_clear_add (snd (overlap_flags_m ctx)) (naabbs * 2) 1 = Inr f1" by blast
  from 1 2 3 4 show ?thesis by (simp add: resize_buffers_def)
qed

lemma pa_room_nonneg: "0 \<le> pa_room m 1"
  by (simp add: pa_room_def split: option.splits)

lemma init_loop_negative: "naabbs < 0 \<Longrightarrow> init_loop_error naabbs fl = None"
  using pa_room_nonneg [of "fst fl"] pa_room_nonneg [of "snd fl"]
  by (simp add: init_loop_error_def Let_def)

lemma overlap_negative:
  assumes "naabbs < 0" and "- (2 ^ 30) \<le> naabbs"
  shows "par_sprune_overlap aabbs naabbs previous junk = Inl OutOfBounds"
proof -
  define ctx where "ctx = (case previous of None \<Rightarrow> calloc_context | Some c \<Rightarrow> c)
      \<lparr>ctx_aabbs := aabbs, ctx_naabbs := naabbs\<rparr>"
  have ok: "int_ok (naabbs * 2)" using assms by (simp add: int_ok_def)
  from resize_buffers_negative [OF assms(1) ok, of ctx] obtain si fl where
    rb: "resize_buffers ctx naabbs = Inr (si, fl)" by force
  have il: "init_loop_error naabbs fl = None" by (rule init_loop_negative [OF assms(1)])
  have "axis_sweep aabbs naabbs 0 (init_indices naabbs 0) (None, []) = Inl OutOfBounds"
    using size_t_negative [OF assms(1) ok, of 0] by (simp add: axis_sweep_def)
  with ok rb il show ?thesis
    by (simp add: par_sprune_overlap_def Let_def ctx_def)
qed

subsection \<open>The culler covers every pair\<close>

lemma greedy_cover_covers:
  "e \<in> set edges \<Longrightarrow> fst e \<in> set (greedy_cover edges) \<or> snd e \<in> set (greedy_cover edges)"
proof (induction edges rule: greedy_cover.induct)
  case (1 edges)
  from "1.prems" obtain e0 rest where ed: "edges = e0 # rest" by (cases edges) auto
  define v where "v = pick_vertex edges (fst e0)"
  have g: "greedy_cover edges = v # greedy_cover (filter (\<lambda>e. \<not> incident v e) edges)"
    by (subst greedy_cover.simps) (simp add: ed v_def Let_def)
  show ?case
  proof (cases "incident v e")
    case True
    then show ?thesis using g by (auto simp: incident_def)
  next
    case False
    with "1.prems" have "e \<in> set (filter (\<lambda>e. \<not> incident v e) edges)" by simp
    from "1.IH" [OF ed v_def this] g show ?thesis by auto
  qed
qed

lemma join_classes_keeps:
  assumes "\<exists>c\<in>set classes. v \<in> set c"
  shows "\<exists>c\<in>set (join_classes e classes). v \<in> set c"
proof -
  from assms obtain c where c: "c \<in> set classes" "v \<in> set c" by blast
  show ?thesis
  proof (cases "fst e \<in> set c \<or> snd e \<in> set c")
    case True
    with c have "v \<in> set (remdups (fst e # snd e #
        concat (filter (\<lambda>c. fst e \<in> set c \<or> snd e \<in> set c) classes)))"
      by auto
    then show ?thesis by (simp add: join_classes_def Let_def)
  next
    case False
    with c show ?thesis by (auto simp: join_classes_def Let_def)
  qed
qed

lemma join_classes_adds: "\<exists>c\<in>set (join_classes e classes). fst e \<in> set c"
  by (simp add: join_classes_def Let_def)

lemma fold_join_classes_keeps:
  "\<exists>c\<in>set classes. v \<in> set c \<Longrightarrow> \<exists>c\<in>set (fold join_classes edges classes). v \<in> set c"
proof (induction edges arbitrary: classes)
  case Nil
  then show ?case by simp
next
  case (Cons e edges)
  show ?case
    using Cons.IH [OF join_classes_keeps [OF Cons.prems, of e]] by simp
qed

lemma components_cover:
  "e \<in> set edges \<Longrightarrow> \<exists>c\<in>set (fold join_classes edges classes). fst e \<in> set c"
proof (induction edges arbitrary: classes)
  case Nil
  then show ?case by simp
next
  case (Cons e' edges)
  show ?case
  proof (cases "e = e'")
    case True
    show ?thesis
      using fold_join_classes_keeps [OF join_classes_adds [of e' classes], of edges] True
      by simp
  next
    case False
    with Cons.prems have "e \<in> set edges" by simp
    from Cons.IH [OF this, of "join_classes e' classes"] show ?thesis by simp
  qed
qed

lemma cull_set_covers:
  assumes "e \<in> set edges"
  shows "fst e \<in> set (cull_set edges) \<or> snd e \<in> set (cull_set edges)"
proof -
  from components_cover [OF assms, of "[]"] obtain c where
    c: "c \<in> set (components edges)" "fst e \<in> set c"
    by (auto simp: components_def)
  have "e \<in> set (component_edges c edges)" using assms c(2) by (simp add: component_edges_def)
  from greedy_cover_covers [OF this]
  have "fst e \<in> set (greedy_cover (component_edges c edges))
      \<or> snd e \<in> set (greedy_cover (component_edges c edges))" .
  then show ?thesis using c(1) by (auto simp: cull_set_def)
qed

section \<open>Concrete inputs\<close>

text \<open>
  Two fillings of the uninitialised flag cells; the context that \<^verbatim>\<open>par_sprune_overlap\<close> returns
  for the two boxes \<open>(0,0,2,2)\<close> and \<open>(1,1,3,3)\<close>, whose flags buffers have room for four cells; a
  context left over from an earlier run on three mutually overlapping boxes, with the result
  of a cull still in it; and the context of those three boxes before any cull.
\<close>

definition zero_heap :: "nat \<Rightarrow> nat \<Rightarrow> bool" where
  "zero_heap axis k = False"

definition one_heap :: "nat \<Rightarrow> nat \<Rightarrow> bool" where
  "one_heap axis k = True"

definition two_box_context :: "int flt par_sprune_context" where
  "two_box_context =
     \<lparr>collision_pairs = [(0, 1)], ncollision_pairs = 1, culled = [], nculled = 0,
      ctx_aabbs = map Num [0, 0, 2, 2, 1, 1, 3, 3], ctx_naabbs = 2,
      sorted_indices = ([0, 4, 2, 6], [1, 5, 3, 7]),
      overlap_flags = ([False, False, False, False], [False, False, False, False]),
      collision_pairs_m = Some 2, sorted_indices_m = (Some 4, Some 4),
      overlap_flags_m = (Some 4, Some 4)\<rparr>"


definition three_overlapping :: "int flt par_sprune_context" where
  "three_overlapping =
     \<lparr>collision_pairs = [(0, 1), (0, 2), (1, 2)], ncollision_pairs = 3,
      culled = [], nculled = 0,
      ctx_aabbs = map Num [0, 0, 3, 3, 1, 1, 4, 4, 2, 2, 5, 5], ctx_naabbs = 3,
      sorted_indices = ([0, 4, 8, 2, 6, 10], [1, 5, 9, 3, 7, 11]),
      overlap_flags = ([False, False, False, False], [False, False, False, False]),
      collision_pairs_m = Some 8, sorted_indices_m = (Some 6, Some 6),
      overlap_flags_m = (Some 6, Some 6)\<rparr>"

section \<open>The claims\<close>

text \<open>
  C1, as amended. For a well-formed input of \<open>n\<close> boxes: whenever \<^verbatim>\<open>par_sprune_overlap\<close> returns a
  context, \<open>(a, b)\<close> is in its collision pairs exactly when \<open>0 \<le> a < b < n\<close> and, on both axes,
  the minimum of \<open>a\<close> is at most the maximum of \<open>b\<close> and the minimum of \<open>b\<close> is strictly below the
  maximum of \<open>a\<close>; and within the limits of the 32-bit arithmetic it does return a context.
\<close>

theorem overlap_pairs_swept:
  assumes "well_formed aabbs n"
  shows "(within_limits aabbs n \<longrightarrow>
       (\<exists>ctx. par_sprune_overlap aabbs (int n) previous junk = Inr ctx)) \<and>
    (\<forall>ctx a b. par_sprune_overlap aabbs (int n) previous junk = Inr ctx \<longrightarrow>
       ((a, b) \<in> set (collision_pairs ctx) \<longleftrightarrow>
          0 \<le> a \<and> a < b \<and> b < int n \<and> swept_overlap aabbs (nat a) (nat b)))"
proof (intro conjI impI allI)
  assume "within_limits aabbs n"
  with assms show "\<exists>ctx. par_sprune_overlap aabbs (int n) previous junk = Inr ctx"
    by (rule par_sprune_overlap_ok)
next
  fix ctx a b
  assume "par_sprune_overlap aabbs (int n) previous junk = Inr ctx"
  from overlap_collision_pairs(2) [OF assms this] swept_overlap_axis_pairs [OF assms, of a b]
  show "(a, b) \<in> set (collision_pairs ctx) \<longleftrightarrow>
      0 \<le> a \<and> a < b \<and> b < int n \<and> swept_overlap aabbs (nat a) (nat b)"
    by simp
qed

theorem overlap_pairs_swept_witness:
  "well_formed (map Num [0, 0, 2, 2, 1, 1, 3, 3, 5, 5, 6, 6 :: int]) 3 \<and>
   within_limits (map Num [0, 0, 2, 2, 1, 1, 3, 3, 5, 5, 6, 6 :: int]) 3 \<and>
   (\<exists>ctx. par_sprune_overlap (map Num [0, 0, 2, 2, 1, 1, 3, 3, 5, 5, 6, 6 :: int]) 3 None zero_heap
        = Inr ctx \<and>
      (0, 1) \<in> set (collision_pairs ctx) \<and> (1, 2) \<notin> set (collision_pairs ctx))"
proof -
  let ?X = "map Num [0, 0, 2, 2, 1, 1, 3, 3, 5, 5, 6, 6 :: int]"
  have wf: "well_formed ?X 3"
    by (simp add: well_formed_def minX_def maxX_def minY_def maxY_def flt_le_def upt_rec)
  have c0: "candidate_count ?X 3 0 = 1" by code_simp
  have c1: "candidate_count ?X 3 1 = 1" by code_simp
  have lim: "within_limits ?X 3" unfolding within_limits_def c0 c1 by simp
  have s1: "swept_overlap ?X 0 1"
    by (simp add: swept_overlap_def minX_def maxX_def minY_def maxY_def flt_le_def flt_lt_def)
  have s2: "\<not> swept_overlap ?X 1 2"
    by (simp add: swept_overlap_def minX_def maxX_def minY_def maxY_def flt_le_def flt_lt_def)
  note t = overlap_pairs_swept [OF wf, of None zero_heap]
  from t lim obtain ctx where c: "par_sprune_overlap ?X (int 3) None zero_heap = Inr ctx"
    by blast
  from t c have m: "\<And>a b. (a, b) \<in> set (collision_pairs ctx) \<longleftrightarrow>
       0 \<le> a \<and> a < b \<and> b < int 3 \<and> swept_overlap ?X (nat a) (nat b)"
    by blast
  have "(0, 1) \<in> set (collision_pairs ctx)" using m [of 0 1] s1 by simp
  moreover have "(1, 2) \<notin> set (collision_pairs ctx)" using m [of 1 2] s2 by simp
  ultimately have "\<exists>ctx. par_sprune_overlap ?X 3 None zero_heap = Inr ctx \<and>
      (0, 1) \<in> set (collision_pairs ctx) \<and> (1, 2) \<notin> set (collision_pairs ctx)"
    using c by (intro exI [of _ ctx]) simp
  with wf lim show ?thesis by (intro conjI)
qed

text \<open>
  With closed intervals the two boxes \<open>(0,0,1,1)\<close> and \<open>(1,0,2,1)\<close>, which share an edge, would
  collide; the sweep reports no pair for them.
\<close>

theorem overlap_closed_counterexample:
  "well_formed (map Num [0, 0, 1, 1, 1, 0, 2, 1 :: int]) 2 \<and>
   closed_overlap (map Num [0, 0, 1, 1, 1, 0, 2, 1 :: int]) 0 1 \<and>
   map_sum id collision_pairs
     (par_sprune_overlap (map Num [0, 0, 1, 1, 1, 0, 2, 1 :: int]) 2 None zero_heap)
     = Inr []"
proof -
  have "well_formed (map Num [0, 0, 1, 1, 1, 0, 2, 1 :: int]) 2"
    by (simp add: well_formed_def minX_def maxX_def minY_def maxY_def flt_le_def upt_rec)
  moreover have "closed_overlap (map Num [0, 0, 1, 1, 1, 0, 2, 1 :: int]) 0 1"
    by (simp add: closed_overlap_def minX_def maxX_def minY_def maxY_def flt_le_def)
  moreover have "map_sum id collision_pairs
      (par_sprune_overlap (map Num [0, 0, 1, 1, 1, 0, 2, 1 :: int]) 2 None zero_heap) = Inr []"
    by code_simp
  ultimately show ?thesis by (intro conjI)
qed

text \<open>
  C3. For every box array, count and previous context, NaN coordinates and boxes of any shape
  included: the collision pairs of a context that \<^verbatim>\<open>par_sprune_overlap\<close> returns are canonical
  and ordered. Every pair has its first component below its second, no pair occurs twice, and
  the sequence ascends strictly in the lexicographic order of (first, second).
\<close>

theorem overlap_pairs_canonical:
  assumes "par_sprune_overlap aabbs naabbs previous junk = Inr ctx"
  shows "list_all (\<lambda>p. fst p < snd p) (collision_pairs ctx) \<and>
    distinct (collision_pairs ctx) \<and>
    sorted_wrt pair_lt (collision_pairs ctx)"
proof -
  note s = overlap_canonical(1) [OF assms]
  have "list_all (\<lambda>p. fst p < snd p) (collision_pairs ctx)"
    using overlap_canonical(2) [OF assms] by (simp add: list_all_iff)
  with s sorted_wrt_pair_lt_distinct [OF s] show ?thesis by simp
qed

theorem overlap_pairs_canonical_witness:
  "par_sprune_overlap [NaN, Num 0, Num 2, Num 2, Num 1, Num 1, NaN, Num (3 :: int)] 2 None zero_heap
     = Inr (two_box_context\<lparr>ctx_aabbs := [NaN, Num 0, Num 2, Num 2, Num 1, Num 1, NaN, Num 3]\<rparr>) \<and>
   collision_pairs two_box_context = [(0, 1)] \<and>
   list_all (\<lambda>p. fst p < snd p) [(0, 1 :: int)] \<and>
   distinct [(0, 1 :: int)] \<and> sorted_wrt pair_lt [(0, 1)]"
proof -
  have e: "par_sprune_overlap [NaN, Num 0, Num 2, Num 2, Num 1, Num 1, NaN, Num (3 :: int)]
      2 None zero_heap
     = Inr (two_box_context\<lparr>ctx_aabbs := [NaN, Num 0, Num 2, Num 2, Num 1, Num 1, NaN, Num 3]\<rparr>)"
    by code_simp
  have c: "collision_pairs two_box_context = [(0, 1)]" by (simp add: two_box_context_def)
  from overlap_pairs_canonical [OF e] c show ?thesis using e by simp
qed

text \<open>
  C4. After \<^verbatim>\<open>par_sprune_cull\<close>, the collision pairs are unchanged and every one of them has
  at least one of its two boxes in the culled set.
\<close>

theorem cull_covers_every_pair:
  "collision_pairs (par_sprune_cull ctx) = collision_pairs ctx \<and>
   list_all (\<lambda>p. fst p \<in> set (culled (par_sprune_cull ctx)) \<or>
                 snd p \<in> set (culled (par_sprune_cull ctx)))
     (collision_pairs (par_sprune_cull ctx))"
proof -
  have "fst p \<in> set (cull_set (collision_pairs ctx)) \<or> snd p \<in> set (cull_set (collision_pairs ctx))"
    if "p \<in> set (collision_pairs ctx)" for p
    using that by (rule cull_set_covers)
  then show ?thesis by (simp add: par_sprune_cull_def Let_def list_all_iff)
qed

theorem cull_covers_every_pair_witness:
  "culled (par_sprune_cull three_overlapping) = [0, 1] \<and>
   nculled (par_sprune_cull three_overlapping) = 2 \<and>
   collision_pairs (par_sprune_cull three_overlapping) = [(0, 1), (0, 2), (1, 2)] \<and>
   list_all (\<lambda>p. fst p \<in> set (culled (par_sprune_cull three_overlapping)) \<or>
                 snd p \<in> set (culled (par_sprune_cull three_overlapping)))
     (collision_pairs (par_sprune_cull three_overlapping))"
proof -
  have a: "culled (par_sprune_cull three_overlapping) = [0, 1]" by code_simp
  have b: "nculled (par_sprune_cull three_overlapping) = 2" by code_simp
  have c: "collision_pairs three_overlapping = [(0, 1), (0, 2), (1, 2)]"
    by (simp add: three_overlapping_def)
  show ?thesis
    using cull_covers_every_pair [of three_overlapping] a b c by simp
qed

text \<open>
  C5. \<^verbatim>\<open>par_sprune_overlap\<close> is deterministic: two invocations with \<^verbatim>\<open>previous = NULL\<close> on the same
  box array and count give the same outcome, and when that is a context, the same collision
  pairs in the same order and the same pair count, whatever the uninitialised memory each
  invocation finds in its fresh buffers.
\<close>

theorem overlap_deterministic:
  "map_sum id (\<lambda>c. (collision_pairs c, ncollision_pairs c))
      (par_sprune_overlap aabbs naabbs None junk1)
   = map_sum id (\<lambda>c. (collision_pairs c, ncollision_pairs c))
      (par_sprune_overlap aabbs naabbs None junk2)"
  by (rule overlap_independent)

theorem overlap_deterministic_witness:
  "map_sum id (\<lambda>c. (collision_pairs c, ncollision_pairs c))
      (par_sprune_overlap (map Num [0, 0, 2, 2, 1, 1, 3, 3, 5, 5, 6, 6 :: int]) 3 None zero_heap)
     = Inr ([(0, 1)], 1) \<and>
   map_sum id (\<lambda>c. (collision_pairs c, ncollision_pairs c))
      (par_sprune_overlap (map Num [0, 0, 2, 2, 1, 1, 3, 3, 5, 5, 6, 6 :: int]) 3 None one_heap)
     = Inr ([(0, 1)], 1) \<and>
   map_sum id overlap_flags
      (par_sprune_overlap (map Num [0, 0, 2, 2, 1, 1, 3, 3, 5, 5, 6, 6 :: int]) 3 None zero_heap)
     \<noteq> map_sum id overlap_flags
      (par_sprune_overlap (map Num [0, 0, 2, 2, 1, 1, 3, 3, 5, 5, 6, 6 :: int]) 3 None one_heap)"
proof -
  have a: "map_sum id (\<lambda>c. (collision_pairs c, ncollision_pairs c))
      (par_sprune_overlap (map Num [0, 0, 2, 2, 1, 1, 3, 3, 5, 5, 6, 6 :: int]) 3 None zero_heap)
     = Inr ([(0, 1)], 1)"
    by code_simp
  have b: "map_sum id overlap_flags
      (par_sprune_overlap (map Num [0, 0, 2, 2, 1, 1, 3, 3, 5, 5, 6, 6 :: int]) 3 None zero_heap)
     \<noteq> map_sum id overlap_flags
      (par_sprune_overlap (map Num [0, 0, 2, 2, 1, 1, 3, 3, 5, 5, 6, 6 :: int]) 3 None one_heap)"
    by code_simp
  show ?thesis
    using overlap_deterministic
      [of "map Num [0, 0, 2, 2, 1, 1, 3, 3, 5, 5, 6, 6 :: int]" 3 zero_heap one_heap] a b
    by simp
qed

text \<open>
  C6, as amended. \<^verbatim>\<open>par_sprune_overlap\<close> does not validate the count and has no
  \<open>InvalidCount\<close> error. With a negative count (at least \<open>- 2^30\<close>, so that \<^verbatim>\<open>naabbs * 2\<close> does
  not overflow) the sort is handed the count converted to \<^verbatim>\<open>size_t\<close> and works outside the
  index buffer; the outcome is the error \<open>OutOfBounds\<close>, and no context is returned.
\<close>

theorem overlap_negative_count:
  assumes "naabbs < 0" and "- (2 ^ 30) \<le> naabbs"
  shows "par_sprune_overlap aabbs naabbs previous junk = Inl OutOfBounds"
  using assms by (rule overlap_negative)

theorem overlap_negative_count_witness:
  "(- 1 :: int) < 0 \<and> - (2 ^ 30) \<le> (- 1 :: int) \<and>
   par_sprune_overlap (map Num [0, 0, 1, 1 :: int]) (- 1) None zero_heap = Inl OutOfBounds"
  using overlap_negative_count [of "- 1" "map Num [0, 0, 1, 1 :: int]" None zero_heap] by simp

text \<open>
  The outcome for the count \<open>- 1\<close> is the out-of-bounds access, not \<open>InvalidCount\<close>.
\<close>

theorem overlap_invalid_count_counterexample:
  "par_sprune_overlap (map Num [0, 0, 1, 1 :: int]) (- 1) None zero_heap = Inl OutOfBounds \<and>
   par_sprune_overlap (map Num [0, 0, 1, 1 :: int]) (- 1) None zero_heap \<noteq> Inl InvalidCount"
  using overlap_negative [of "- 1" "map Num [0, 0, 1, 1 :: int]" None zero_heap] by simp




text \<open>
  C8. For every well-formed box array and either axis: wherever the sorted event order is split
  as \<open>pre @ fltindex # post\<close> with \<open>fltindex\<close> a max event, every state that the sweep of \<open>pre\<close>
  reaches has the box \<open>fltindex / 4\<close> in its active list, so \<^verbatim>\<open>par_sprune__remove\<close> succeeds there.
  Hence the outcome of \<^verbatim>\<open>par_sprune_overlap\<close> is never the failed assertion, and within the limits
  of the 32-bit arithmetic it is a context.
\<close>

theorem remove_never_fails:
  assumes "well_formed aabbs n" and "axis < 2"
  shows "(\<forall>pre fltindex post am active pairs.
      par_qsort (par__cmpinds aabbs) (init_indices (int n) axis) = pre @ fltindex # post \<and>
      (fltindex - int axis) smod 4 \<noteq> 0 \<and>
      sweep axis pre ((am, []), (None, [])) = Inr (active, pairs) \<longrightarrow>
      fltindex sdiv 4 \<in> set (snd active) \<and>
      (\<exists>cells. par_sprune__remove (snd active) (fltindex sdiv 4) = Inr cells)) \<and>
    par_sprune_overlap aabbs (int n) previous junk \<noteq> Inl AssertionFailed \<and>
    (within_limits aabbs n \<longrightarrow>
       (\<exists>ctx. par_sprune_overlap aabbs (int n) previous junk = Inr ctx))"
proof (intro conjI allI impI)
  fix pre fltindex post am active pairs
  assume h: "par_qsort (par__cmpinds aabbs) (init_indices (int n) axis) = pre @ fltindex # post \<and>
      (fltindex - int axis) smod 4 \<noteq> 0 \<and>
      sweep axis pre ((am, []), (None, [])) = Inr (active, pairs)"
  have c: "sweep_ctx aabbs (int n) axis (pre @ fltindex # post)"
    using sweep_ctx_sorted [OF assms] h by (simp add: sorted_events_def)
  from sweep_prefix [OF c] obtain act prs where
    sw: "plain_sweep axis pre ([], []) = Inr (act, prs)" and
    da: "distinct act" and sa: "set act = open_boxes (int n) axis pre"
    by blast
  from h have "sweep axis pre ((am, []), (None, [])) = Inr (active, pairs)" by simp
  from sweep_sound [OF this] sw have act: "snd active = act" by simp
  have "fltindex \<in> minE axis ` {0..<int n} \<union> maxE axis ` {0..<int n}"
    using c by (auto simp: sweep_ctx_def)
  then consider b where "0 \<le> b" "b < int n" "fltindex = minE axis b"
    | b where "0 \<le> b" "b < int n" "fltindex = maxE axis b"
    by auto
  then have "fltindex sdiv 4 \<in> set (snd active) \<and>
      (\<exists>cells. par_sprune__remove (snd active) (fltindex sdiv 4) = Inr cells)"
  proof cases
    case 1
    then have "(fltindex - int axis) smod 4 = 0"
      by (simp add: minE_def smod_nonneg)
    with h show ?thesis by simp
  next
    case 2
    have "0 \<le> maxE axis b" using 2(1) by (simp add: maxE_def)
    then have "maxE axis b sdiv 4 = maxE axis b div 4" by (simp add: sdiv_nonneg)
    also have "\<dots> = b" using assms(2) by (simp add: maxE_def)
    finally have d: "fltindex sdiv 4 = b" using 2(3) by simp
    have c': "sweep_ctx aabbs (int n) axis (pre @ maxE axis b # post)" using c 2(3) by simp
    have mem: "b \<in> set act" using open_boxes_max_mem [OF c' 2(1,2)] sa by simp
    from par_sprune__remove_present [OF mem da] obtain cells where
      "par_sprune__remove act b = Inr cells" by blast
    with mem d act show ?thesis by auto
  qed
  then show "fltindex sdiv 4 \<in> set (snd active)"
    "\<exists>cells. par_sprune__remove (snd active) (fltindex sdiv 4) = Inr cells"
    by simp_all
next
  show "par_sprune_overlap aabbs (int n) previous junk \<noteq> Inl AssertionFailed"
    by (rule par_sprune_overlap_no_assert [OF assms(1)])
next
  assume "within_limits aabbs n"
  with assms(1) show "\<exists>ctx. par_sprune_overlap aabbs (int n) previous junk = Inr ctx"
    by (rule par_sprune_overlap_ok)
qed

theorem remove_never_fails_witness:
  "well_formed (map Num [0, 0, 2, 2, 1, 1, 3, 3 :: int]) 2 \<and>
   within_limits (map Num [0, 0, 2, 2, 1, 1, 3, 3 :: int]) 2 \<and>
   par_qsort (par__cmpinds (map Num [0, 0, 2, 2, 1, 1, 3, 3 :: int])) (init_indices 2 0)
     = [0, 4] @ 2 # [6] \<and>
   (2 - int 0) smod 4 \<noteq> (0 :: int) \<and>
   sweep 0 [0, 4] ((None, []), (None, [])) = Inr ((Some 2, [0, 1]), (Some 2, [(0, 1)])) \<and>
   2 sdiv 4 \<in> set [0, 1 :: int] \<and>
   (\<exists>cells. par_sprune__remove [0, 1] (2 sdiv 4) = Inr cells) \<and>
   par_sprune_overlap (map Num [0, 0, 2, 2, 1, 1, 3, 3 :: int]) 2 None zero_heap
     \<noteq> Inl AssertionFailed \<and>
   (\<exists>ctx. par_sprune_overlap (map Num [0, 0, 2, 2, 1, 1, 3, 3 :: int]) 2 None zero_heap = Inr ctx)"
proof -
  let ?X = "map Num [0, 0, 2, 2, 1, 1, 3, 3 :: int]"
  have wf: "well_formed ?X 2"
    by (simp add: well_formed_def minX_def maxX_def minY_def maxY_def flt_le_def upt_rec)
  have c0: "candidate_count ?X 2 0 = 1" by code_simp
  have c1: "candidate_count ?X 2 1 = 1" by code_simp
  have lim: "within_limits ?X 2" unfolding within_limits_def c0 c1 by simp
  have e: "par_qsort (par__cmpinds ?X) (init_indices (int 2) 0) = [0, 4] @ 2 # [6]"
    by code_simp
  have m: "(2 - int 0) smod 4 \<noteq> (0 :: int)" by (simp add: signed_modulo_int_def)
  have s: "sweep 0 [0, 4] ((None, []), (None, [])) = Inr ((Some 2, [0, 1]), (Some 2, [(0, 1)]))"
    by code_simp
  have ax: "(0 :: nat) < 2" by simp
  note t = remove_never_fails [OF wf ax, of None zero_heap]
  from t e m s have r: "2 sdiv 4 \<in> set (snd (Some (2 :: nat), [0, 1 :: int])) \<and>
      (\<exists>cells. par_sprune__remove (snd (Some (2 :: nat), [0, 1])) (2 sdiv 4) = Inr cells)"
    by blast
  from t have na: "par_sprune_overlap ?X (int 2) None zero_heap \<noteq> Inl AssertionFailed"
    by blast
  from t lim have ex: "\<exists>ctx. par_sprune_overlap ?X (int 2) None zero_heap = Inr ctx"
    by blast
  have e': "par_qsort (par__cmpinds ?X) (init_indices 2 0) = [0, 4] @ 2 # [6]"
    using e by simp
  have r1: "2 sdiv 4 \<in> set [0, 1 :: int]" using r by simp
  have r2: "\<exists>cells. par_sprune__remove [0, 1] (2 sdiv 4) = Inr cells" using r by simp
  have na': "par_sprune_overlap ?X 2 None zero_heap \<noteq> Inl AssertionFailed" using na by simp
  have ex': "\<exists>ctx. par_sprune_overlap ?X 2 None zero_heap = Inr ctx" using ex by simp
  show ?thesis by (intro conjI wf lim e' m s r1 r2 na' ex')
qed




text \<open>
  C10. \<^verbatim>\<open>par_qsort\<close> is correct: for every array and every comparator that defines a total
  preorder, the result is a permutation of the input and is ordered non-decreasingly by the
  comparator.
\<close>

theorem par_qsort_correct:
  assumes "compar_total compar" and "compar_trans compar"
  shows "mset (par_qsort compar xs) = mset xs \<and>
    sorted_wrt (\<lambda>x y. compar x y \<le> 0) (par_qsort compar xs)"
  using par_qsort_sorts [OF assms, of xs] by (simp add: compar_le_def [abs_def])

theorem par_qsort_correct_witness:
  "compar_total par__cmppairs \<and> compar_trans par__cmppairs \<and>
   par_qsort par__cmppairs [(2, 3), (0, 1), (0, 2), (1, 5), (0, 1), (7, 8), (3, 4), (1, 2)]
     = [(0, 1), (0, 1), (0, 2), (1, 2), (1, 5), (2, 3), (3, 4), (7, 8)] \<and>
   mset (par_qsort par__cmppairs [(2, 3), (0, 1), (0, 2), (1, 5), (0, 1), (7, 8), (3, 4), (1, 2)])
     = mset [(2, 3), (0, 1), (0, 2), (1, 5), (0, 1), (7, 8), (3, 4), (1, 2)] \<and>
   sorted_wrt (\<lambda>x y. par__cmppairs x y \<le> 0)
     (par_qsort par__cmppairs [(2, 3), (0, 1), (0, 2), (1, 5), (0, 1), (7, 8), (3, 4), (1, 2)])"
proof -
  have e: "par_qsort par__cmppairs [(2, 3), (0, 1), (0, 2), (1, 5), (0, 1), (7, 8), (3, 4), (1, 2)]
     = [(0, 1), (0, 1), (0, 2), (1, 2), (1, 5), (2, 3), (3, 4), (7, 8)]"
    by code_simp
  show ?thesis
    using par_qsort_correct [OF cmppairs_total cmppairs_trans,
        of "[(2, 3), (0, 1), (0, 2), (1, 5), (0, 1), (7, 8), (3, 4), (1, 2)]"]
      cmppairs_total cmppairs_trans e
    by simp
qed

end
